theory Spec2Isabelle
  imports Main "HOL-Library.Word"
begin

unbundle bit_operations_syntax

section \<open>Data model\<close>

text \<open>
  The error codes the functions of \<^verbatim>\<open>cpu-set-util.c\<close> return as negative \<^verbatim>\<open>errno\<close>
  values. A return code \<^verbatim>\<open>int r\<close> is a \<open>status\<close>: \<open>Inr ()\<close> is 0, \<open>Inl e\<close> is \<^verbatim>\<open>-e\<close>.
\<close>

datatype error = ENOMEM | ERANGE | EINVAL | EFAULT | EPERM | ESRCH

type_synonym status = "error + unit"

text \<open>
  \<^verbatim>\<open>CPUSet\<close> is a struct of a pointer \<^verbatim>\<open>cpu_set_t *set\<close> and a byte count
  \<^verbatim>\<open>size_t allocated\<close>. The pointer is \<open>None\<close> when it is \<^verbatim>\<open>NULL\<close>, and the bytes it
  points to otherwise.
\<close>

record CPUSet =
  set_c :: "8 word list option"
  allocated :: nat

definition bytes_of :: "CPUSet \<Rightarrow> 8 word list" where
  "bytes_of a = (case set_c a of None \<Rightarrow> [] | Some bs \<Rightarrow> bs)"

text \<open>The empty descriptor, \<^verbatim>\<open>(CPUSet) {}\<close>.\<close>

definition cpu_set_empty :: CPUSet where
  "cpu_set_empty = \<lparr>set_c = None, allocated = 0\<rparr>"

text \<open>
  Memory allocation can fail. The heap is the list of the outcomes of the coming
  allocation requests, in order (\<open>True\<close>: granted); once the list is used up every
  request is granted. Each request takes the head of the list.
\<close>

type_synonym heap = "bool list"

fun heap_alloc :: "heap \<Rightarrow> bool \<times> heap" where
  "heap_alloc [] = (True, [])"
| "heap_alloc (ok # h) = (ok, h)"

text \<open>A heap that grants every request.\<close>

definition heap_grants :: "heap \<Rightarrow> bool" where
  "heap_grants h = (\<forall>ok \<in> set h. ok)"

text \<open>
  Modelled from the spec: the native bitset macros \<^verbatim>\<open>CPU_ALLOC_SIZE\<close>, \<^verbatim>\<open>CPU_ISSET_S\<close>
  and \<^verbatim>\<open>CPU_SET_S\<close> of the C library are not in the source file. The allocation
  granularity is the 8-byte native word (64 CPUs), so \<^verbatim>\<open>CPU_ALLOC_SIZE(n)\<close> is the
  smallest multiple of 8 bytes that holds \<open>n\<close> bits. The bit of CPU \<open>i\<close> is bit
  \<open>i mod 8\<close> of byte \<open>i div 8\<close> (64-bit words in little-endian byte order), and both
  accessors do nothing beyond \<open>setsize\<close> bytes.
\<close>

definition CPU_ALLOC_SIZE :: "nat \<Rightarrow> nat" where
  "CPU_ALLOC_SIZE count = ((count + 64 - 1) div 64) * 8"

definition CPU_ISSET_S :: "nat \<Rightarrow> nat \<Rightarrow> 8 word list \<Rightarrow> bool" where
  "CPU_ISSET_S cpu setsize bs = (cpu div 8 < setsize \<and> bit (bs ! (cpu div 8)) (cpu mod 8))"

definition CPU_SET_S :: "nat \<Rightarrow> nat \<Rightarrow> 8 word list \<Rightarrow> 8 word list" where
  "CPU_SET_S cpu setsize bs =
     (if cpu div 8 < setsize
      then bs[cpu div 8 := (bs ! (cpu div 8)) OR push_bit (cpu mod 8) 1]
      else bs)"

text \<open>Membership of a CPU index, as every reader in the file tests it.\<close>

definition cpu_isset :: "CPUSet \<Rightarrow> nat \<Rightarrow> bool" where
  "cpu_isset a i = CPU_ISSET_S i (allocated a) (bytes_of a)"

text \<open>
  The invariant of the data model: the buffer has exactly \<open>allocated\<close> bytes (none when
  the pointer is \<^verbatim>\<open>NULL\<close>), \<open>allocated\<close> is a multiple of the allocation granularity,
  and every bit position fits the \<^verbatim>\<open>int\<close> and \<^verbatim>\<open>unsigned\<close> loop counters of the file.
  Outside it the C code reads or writes out of bounds, or overflows a counter.
\<close>

definition wf_cpuset :: "CPUSet \<Rightarrow> bool" where
  "wf_cpuset a =
     (allocated a mod 8 = 0 \<and> allocated a * 8 < 2 ^ 31 \<and>
      (case set_c a of None \<Rightarrow> allocated a = 0 | Some bs \<Rightarrow> length bs = allocated a))"

section \<open>The growable bit set\<close>

text \<open>
  \<^verbatim>\<open>cpu_set_realloc\<close>: grow the buffer to \<^verbatim>\<open>CPU_ALLOC_SIZE(ncpus)\<close> bytes when that is
  more than \<open>allocated\<close>; \<^verbatim>\<open>realloc\<close> keeps the old bytes and \<^verbatim>\<open>memzero\<close> clears the new
  ones. A failed \<^verbatim>\<open>realloc\<close> returns \<^verbatim>\<open>-ENOMEM\<close> before anything is written.
  Every function returns its return code, the struct it was given a pointer to as
  it is on return, and the heap.
\<close>

definition cpu_set_realloc :: "CPUSet \<Rightarrow> nat \<Rightarrow> heap \<Rightarrow> status \<times> CPUSet \<times> heap" where
  "cpu_set_realloc cpu_set ncpus h =
     (let need = CPU_ALLOC_SIZE ncpus in
      if need > allocated cpu_set then
        (case heap_alloc h of (ok, h') \<Rightarrow>
           if \<not> ok then (Inl ENOMEM, cpu_set, h')
           else (Inr (),
                 \<lparr>set_c = Some (take (allocated cpu_set) (bytes_of cpu_set)
                                @ replicate (need - allocated cpu_set) 0),
                  allocated = need\<rparr>,
                 h'))
      else (Inr (), cpu_set, h))"

text \<open>\<^verbatim>\<open>cpu_set_add\<close>: the ceiling check, the growth, then the bit.\<close>

definition cpu_set_add :: "CPUSet \<Rightarrow> nat \<Rightarrow> heap \<Rightarrow> status \<times> CPUSet \<times> heap" where
  "cpu_set_add cpu_set cpu h =
     (if cpu \<ge> 8192 then (Inl ERANGE, cpu_set, h)
      else
        (case cpu_set_realloc cpu_set (cpu + 1) h of
           (Inl e, s, h') \<Rightarrow> (Inl e, s, h')
         | (Inr _, s, h') \<Rightarrow>
             (Inr (), s\<lparr>set_c := map_option (CPU_SET_S cpu (allocated s)) (set_c s)\<rparr>, h')))"

text \<open>
  \<^verbatim>\<open>cpu_set_add_all\<close>: the loop runs \<^verbatim>\<open>cpu_p1\<close> from \<^verbatim>\<open>b->allocated * 8\<close>, converted
  to \<^verbatim>\<open>unsigned\<close>, down to 1 and adds every index set in \<open>b\<close>, returning at the first
  failure.
\<close>

fun cpu_set_add_all_loop :: "CPUSet \<Rightarrow> CPUSet \<Rightarrow> nat \<Rightarrow> heap \<Rightarrow> status \<times> CPUSet \<times> heap" where
  "cpu_set_add_all_loop a b 0 h = (Inr (), a, h)"
| "cpu_set_add_all_loop a b (Suc cpu) h =
     (if CPU_ISSET_S cpu (allocated b) (bytes_of b) then
        (case cpu_set_add a cpu h of
           (Inl e, a', h') \<Rightarrow> (Inl e, a', h')
         | (Inr _, a', h') \<Rightarrow> cpu_set_add_all_loop a' b cpu h')
      else cpu_set_add_all_loop a b cpu h)"

definition cpu_set_add_all :: "CPUSet \<Rightarrow> CPUSet \<Rightarrow> heap \<Rightarrow> status \<times> CPUSet \<times> heap" where
  "cpu_set_add_all a b h = cpu_set_add_all_loop a b ((allocated b * 8) mod 2 ^ 32) h"

text \<open>
  Modelled from the spec: \<^verbatim>\<open>cpu_set_reset\<close> is declared in the header, which is not
  among the sources. It releases the owned storage and returns the set to its empty
  state.
\<close>

definition cpu_set_reset :: "CPUSet \<Rightarrow> CPUSet" where
  "cpu_set_reset a = cpu_set_empty"

text \<open>
  A sequence of \<^verbatim>\<open>cpu_set_add\<close> calls on one set, whatever each call returns: the list
  of the states of the set, before the first call and after each one.
\<close>

fun add_calls :: "CPUSet \<Rightarrow> nat list \<Rightarrow> heap \<Rightarrow> CPUSet list" where
  "add_calls a [] h = [a]"
| "add_calls a (cpu # cpus) h =
     (case cpu_set_add a cpu h of (r, a', h') \<Rightarrow> a # add_calls a' cpus h')"

text \<open>
  A set built by adding the indices of a list one after the other, stopping at the
  first call that fails.
\<close>

fun cpu_set_add_list :: "CPUSet \<Rightarrow> nat list \<Rightarrow> heap \<Rightarrow> status \<times> CPUSet \<times> heap" where
  "cpu_set_add_list a [] h = (Inr (), a, h)"
| "cpu_set_add_list a (cpu # cpus) h =
     (case cpu_set_add a cpu h of
        (Inl e, a', h') \<Rightarrow> (Inl e, a', h')
      | (Inr _, a', h') \<Rightarrow> cpu_set_add_list a' cpus h')"

section \<open>Rendering\<close>

text \<open>
  \<^verbatim>\<open>sprintf("%d", i)\<close> for a non-negative \<open>i\<close>: the decimal digits, most significant
  first.
\<close>

fun decimal :: "nat \<Rightarrow> string" where
  "decimal n = (if n < 10 then [char_of (48 + n)]
                else decimal (n div 10) @ [char_of (48 + n mod 10)])"

declare decimal.simps [simp del]

text \<open>
  \<^verbatim>\<open>cpu_set_to_string\<close>: \<open>i\<close> runs upwards over the bit positions of the buffer. For
  each index that is set, \<^verbatim>\<open>GREEDY_REALLOC\<close> makes room, and the index is printed behind
  a space unless it is the first. Modelled from the spec: \<^verbatim>\<open>GREEDY_REALLOC\<close> is a macro
  of \<^verbatim>\<open>alloc-util.h\<close>, which is not among the sources; each use is taken as one
  allocation request, whose failure returns \<^verbatim>\<open>NULL\<close>. \<open>str\<close> is \<open>None\<close> while it is \<^verbatim>\<open>NULL\<close>; its length is \<open>len\<close>. A set with no
  index returns \<^verbatim>\<open>strdup("")\<close>, which allocates too. The result is \<open>None\<close> for
  \<^verbatim>\<open>NULL\<close>.
\<close>

fun cpu_set_to_string_loop ::
  "CPUSet \<Rightarrow> nat list \<Rightarrow> string option \<Rightarrow> heap \<Rightarrow> (error + string option) \<times> heap" where
  "cpu_set_to_string_loop a [] str h = (Inr str, h)"
| "cpu_set_to_string_loop a (i # is) str h =
     (if \<not> CPU_ISSET_S i (allocated a) (bytes_of a) then cpu_set_to_string_loop a is str h
      else
        (case heap_alloc h of (ok, h') \<Rightarrow>
           if \<not> ok then (Inl ENOMEM, h')
           else
             (let s = (case str of None \<Rightarrow> [] | Some s \<Rightarrow> s) in
              cpu_set_to_string_loop a is
                (Some (s @ (if length s > 0 then '' '' else []) @ decimal i)) h')))"

definition cpu_set_to_string :: "CPUSet \<Rightarrow> heap \<Rightarrow> string option \<times> heap" where
  "cpu_set_to_string a h =
     (case cpu_set_to_string_loop a [0 ..< allocated a * 8] None h of
        (Inl e, h') \<Rightarrow> (None, h')
      | (Inr (Some s), h') \<Rightarrow> (Some s, h')
      | (Inr None, h') \<Rightarrow>
          (case heap_alloc h' of (ok, h'') \<Rightarrow> (if ok then Some [] else None, h'')))"

text \<open>
  The text format: decimal indices separated by single spaces, the empty string for
  no index. \<open>append_index\<close> is one step of the loop on the text so far.
\<close>

fun render :: "nat list \<Rightarrow> string" where
  "render [] = []"
| "render [i] = decimal i"
| "render (i # j # js) = decimal i @ '' '' @ render (j # js)"

definition append_index :: "string \<Rightarrow> nat \<Rightarrow> string" where
  "append_index s i = s @ (if length s > 0 then '' '' else []) @ decimal i"

section \<open>The kernel size prober\<close>

text \<open>
  The host affinity query \<^verbatim>\<open>sched_getaffinity(0, size, c)\<close> is a parameter: given the
  capacity of the buffer in bytes it succeeds (\<open>None\<close>) or fails with an \<^verbatim>\<open>errno\<close>, of
  which \<^verbatim>\<open>EINVAL\<close> says that the buffer is too small.

  \<^verbatim>\<open>cpu_set_malloc\<close>: the trial count \<open>n\<close> is an \<^verbatim>\<open>unsigned\<close>, so doubling it wraps
  modulo \<open>2 ^ 32\<close>. The loop has no bound: a run that never returns is \<open>None\<close>. A run
  that returns gives \<open>None\<close> for \<^verbatim>\<open>NULL\<close>, or the buffer with the count that is stored
  in \<^verbatim>\<open>*ncpus\<close> when the caller passes one, and the heap.
\<close>

partial_function (option) cpu_set_malloc_loop ::
  "(nat \<Rightarrow> error option) \<Rightarrow> nat \<Rightarrow> heap \<Rightarrow> ((8 word list \<times> nat) option \<times> heap) option" where
  "cpu_set_malloc_loop sched_getaffinity n h =
     (case heap_alloc h of (ok, h') \<Rightarrow>
        if \<not> ok then Some (None, h')
        else
          (case sched_getaffinity (CPU_ALLOC_SIZE n) of
             None \<Rightarrow> Some (Some (replicate (CPU_ALLOC_SIZE n) 0, n), h')
           | Some errno \<Rightarrow>
               if errno \<noteq> EINVAL then Some (None, h')
               else cpu_set_malloc_loop sched_getaffinity ((n * 2) mod 2 ^ 32) h'))"

definition cpu_set_malloc ::
  "(nat \<Rightarrow> error option) \<Rightarrow> heap \<Rightarrow> ((8 word list \<times> nat) option \<times> heap) option" where
  "cpu_set_malloc sched_getaffinity h = cpu_set_malloc_loop sched_getaffinity 1024 h"

text \<open>
  The trial count after \<open>k\<close> doublings, and what a returned buffer and hint satisfy
  when the loop is entered at the \<open>k\<close>-th trial count after \<open>k\<close> refusals.
\<close>

definition trial :: "nat \<Rightarrow> nat" where
  "trial k = (1024 * 2 ^ k) mod 2 ^ 32"

definition malloc_post :: "(nat \<Rightarrow> error option) \<Rightarrow> nat \<Rightarrow> ((8 word list \<times> nat) option \<times> heap) \<Rightarrow> bool" where
  "malloc_post host n y =
     (\<forall>k buf m h'. n = trial k \<longrightarrow> (\<forall>j<k. host (CPU_ALLOC_SIZE (trial j)) = Some EINVAL) \<longrightarrow>
           y = (Some (buf, m), h') \<longrightarrow>
           (\<exists>k'. m = trial k' \<and> host (CPU_ALLOC_SIZE m) = None \<and>
                 (\<forall>j<k'. host (CPU_ALLOC_SIZE (trial j)) = Some EINVAL) \<and>
                 buf = replicate (CPU_ALLOC_SIZE m) 0))"

section \<open>Parsing\<close>

text \<open>
  Modelled from the spec: the diagnostic collaborator (\<^verbatim>\<open>log_oom\<close>, \<^verbatim>\<open>log_syntax\<close>) is
  not among the sources. Given a severity, an error code and a message it emits a
  diagnostic and does not affect control flow; a call that reports a failure returns
  that failure. The log is the list of the diagnostics emitted, oldest first. The
  source location (\<^verbatim>\<open>unit\<close>, \<^verbatim>\<open>filename\<close>, \<^verbatim>\<open>line\<close>) and the names \<^verbatim>\<open>lvalue\<close> and
  \<^verbatim>\<open>rvalue\<close> printed by the message for an invalid value only travel to the diagnostics
  and are left out.
\<close>

datatype log_level = LOG_ERR | LOG_WARNING

datatype message =
    Out_of_memory
  | Invalid_value
  | Failed_to_parse string
  | Range_invalid string nat nat
  | Cannot_add nat

datatype diagnostic = Diagnostic log_level "error option" message

definition log_oom :: "diagnostic list \<Rightarrow> error \<times> diagnostic list" where
  "log_oom lg = (ENOMEM, lg @ [Diagnostic LOG_ERR (Some ENOMEM) Out_of_memory])"

definition log_syntax ::
  "log_level \<Rightarrow> error option \<Rightarrow> message \<Rightarrow> diagnostic list \<Rightarrow> error option \<times> diagnostic list" where
  "log_syntax level err msg lg = (err, lg @ [Diagnostic level err msg])"

text \<open>
  Modelled from the spec: the tokenizer \<^verbatim>\<open>extract_first_word\<close> is not among the
  sources. It extracts the next token using whitespace or comma as delimiters,
  honouring quoting, so that a quoted token may itself contain delimiter characters;
  it ends cleanly when no token remains. It returns an error (a quote left open is
  \<^verbatim>\<open>EINVAL\<close>, a failed allocation of the word \<^verbatim>\<open>ENOMEM\<close>), \<open>None\<close> when no word
  remains, or the word and the rest of the text.
\<close>

definition separator :: "char \<Rightarrow> bool" where
  "separator c = (c \<in> set [CHR '' '', CHR 0x09, CHR 0x0A, CHR 0x0D, CHR '',''])"

definition quote_char :: "char \<Rightarrow> bool" where
  "quote_char c = (c = CHR 0x27 \<or> c = CHR 0x22)"

fun scan_word :: "char option \<Rightarrow> string \<Rightarrow> error + string \<times> string" where
  "scan_word None [] = Inr ([], [])"
| "scan_word (Some q) [] = Inl EINVAL"
| "scan_word None (c # cs) =
     (if quote_char c then scan_word (Some c) cs
      else if separator c then Inr ([], dropWhile separator cs)
      else (case scan_word None cs of Inl e \<Rightarrow> Inl e | Inr (w, r) \<Rightarrow> Inr (c # w, r)))"
| "scan_word (Some q) (c # cs) =
     (if c = q then scan_word None cs
      else (case scan_word (Some q) cs of Inl e \<Rightarrow> Inl e | Inr (w, r) \<Rightarrow> Inr (c # w, r)))"

definition extract_first_word :: "string \<Rightarrow> heap \<Rightarrow> (error + (string \<times> string) option) \<times> heap" where
  "extract_first_word p h =
     (case dropWhile separator p of
        [] \<Rightarrow> (Inr None, h)
      | c # cs \<Rightarrow>
          (case heap_alloc h of (ok, h') \<Rightarrow>
             if \<not> ok then (Inl ENOMEM, h')
             else (case scan_word None (c # cs) of
                     Inl e \<Rightarrow> (Inl e, h')
                   | Inr (w, r) \<Rightarrow> (Inr (Some (w, r)), h'))))"

text \<open>
  Modelled from the spec: the range helper \<^verbatim>\<open>parse_range\<close> is not among the sources.
  It parses \<^verbatim>\<open>N\<close> or \<^verbatim>\<open>N-M\<close>, decimal, into two unsigned integers; \<open>lower > upper\<close> is a
  valid result. A word that is not of that form is \<^verbatim>\<open>EINVAL\<close>, a number that does not
  fit an \<^verbatim>\<open>unsigned\<close> is \<^verbatim>\<open>ERANGE\<close>.
\<close>

definition digit :: "char \<Rightarrow> bool" where
  "digit c = (48 \<le> (of_char c :: nat) \<and> (of_char c :: nat) \<le> 57)"

definition safe_atou :: "string \<Rightarrow> error + nat" where
  "safe_atou s =
     (if s = [] \<or> \<not> list_all digit s then Inl EINVAL
      else
        (let n = foldl (\<lambda>a c. 10 * a + (of_char c - 48)) (0 :: nat) s in
         if n \<ge> 2 ^ 32 then Inl ERANGE else Inr n))"

definition parse_range :: "string \<Rightarrow> error + nat \<times> nat" where
  "parse_range t =
     (let word = takeWhile (\<lambda>c. c \<noteq> CHR ''-'') t;
          rest = dropWhile (\<lambda>c. c \<noteq> CHR ''-'') t in
      case safe_atou word of
        Inl e \<Rightarrow> Inl e
      | Inr l \<Rightarrow>
          if rest = [] then Inr (l, l)
          else (case safe_atou (tl rest) of Inl e \<Rightarrow> Inl e | Inr u \<Rightarrow> Inr (l, u)))"

text \<open>
  The inner loop of \<^verbatim>\<open>parse_cpu_set_full\<close>: \<^verbatim>\<open>cpu_p1\<close> runs from
  \<^verbatim>\<open>MIN(cpu_upper, UINT_MAX-1) + 1\<close> down while it is above \<^verbatim>\<open>cpu_lower\<close>, adding
  \<^verbatim>\<open>cpu_p1 - 1\<close>; a failed addition returns, behind a diagnostic in warn mode.
\<close>

fun parse_add_loop ::
  "CPUSet \<Rightarrow> nat \<Rightarrow> nat \<Rightarrow> bool \<Rightarrow> heap \<Rightarrow> diagnostic list
     \<Rightarrow> (error + CPUSet) \<times> heap \<times> diagnostic list" where
  "parse_add_loop c cpu_lower 0 warn h lg = (Inr c, h, lg)"
| "parse_add_loop c cpu_lower (Suc cpu) warn h lg =
     (if Suc cpu > cpu_lower then
        (case cpu_set_add c cpu h of
           (Inl e, c', h') \<Rightarrow>
             (Inl e, h',
              if warn then snd (log_syntax LOG_ERR (Some e) (Cannot_add cpu) lg) else lg)
         | (Inr _, c', h') \<Rightarrow> parse_add_loop c' cpu_lower cpu warn h' lg)
      else (Inr c, h, lg))"

lemma scan_word_length:
  "scan_word q cs = Inr (w, r) \<Longrightarrow> length r \<le> length cs"
proof (induction q cs arbitrary: w rule: scan_word.induct)
  case (3 c cs)
  then show ?case
    by (auto split: if_splits sum.splits prod.splits
             intro: le_trans [OF length_dropWhile_le] le_SucI)
next
  case (4 q c cs)
  then show ?case
    by (auto split: if_splits sum.splits prod.splits intro: le_SucI)
qed simp_all

lemma extract_first_word_length:
  assumes "extract_first_word p h = (Inr (Some (w, r)), h')"
  shows "length r < length p"
proof -
  from assms obtain c cs where dw: "dropWhile separator p = c # cs"
    and sw: "scan_word None (c # cs) = Inr (w, r)"
    by (auto simp: extract_first_word_def split: list.splits prod.splits if_splits sum.splits)
  have "\<not> separator c"
    using dw by (metis hd_dropWhile list.sel(1) list.distinct(1))
  then have "length r \<le> length cs"
    using sw by (auto split: if_splits sum.splits prod.splits dest: scan_word_length)
  moreover have "length (c # cs) \<le> length p"
    using length_dropWhile_le [of separator p] dw by simp
  ultimately show ?thesis by simp
qed

text \<open>
  \<^verbatim>\<open>parse_cpu_set_full\<close>: the outer loop over the words of \<open>p\<close>, building the local
  set \<open>c\<close>. A successful parse returns \<open>c\<close>, which the caller's \<^verbatim>\<open>*cpu_set\<close> then holds; a
  failed one returns the error and leaves \<^verbatim>\<open>*cpu_set\<close> alone.
\<close>

function parse_cpu_set_loop ::
  "string \<Rightarrow> CPUSet \<Rightarrow> bool \<Rightarrow> heap \<Rightarrow> diagnostic list
     \<Rightarrow> (error + CPUSet) \<times> heap \<times> diagnostic list" where
  "parse_cpu_set_loop p c warn h lg =
     (case extract_first_word p h of
        (Inl e, h1) \<Rightarrow>
          if e = ENOMEM then
            (if warn then (Inl (fst (log_oom lg)), h1, snd (log_oom lg)) else (Inl ENOMEM, h1, lg))
          else
            (Inl e, h1,
             if warn then snd (log_syntax LOG_ERR (Some e) Invalid_value lg) else lg)
      | (Inr None, h1) \<Rightarrow> (Inr c, h1, lg)
      | (Inr (Some (word, p')), h1) \<Rightarrow>
          (case parse_range word of
             Inl e \<Rightarrow>
               (Inl e, h1,
                if warn then snd (log_syntax LOG_ERR (Some e) (Failed_to_parse word) lg) else lg)
           | Inr (cpu_lower, cpu_upper) \<Rightarrow>
               (let lg1 = (if cpu_lower > cpu_upper \<and> warn
                           then snd (log_syntax LOG_WARNING None
                                       (Range_invalid word cpu_lower cpu_upper) lg)
                           else lg) in
                case (if cpu_lower > cpu_upper then cpu_set_realloc c 1 h1
                      else (Inr (), c, h1)) of
                  (Inl e, c1, h2) \<Rightarrow> (Inl e, h2, lg1)
                | (Inr _, c1, h2) \<Rightarrow>
                    (case parse_add_loop c1 cpu_lower (min cpu_upper (2 ^ 32 - 2) + 1)
                            warn h2 lg1 of
                       (Inl e, h3, lg2) \<Rightarrow> (Inl e, h3, lg2)
                     | (Inr c2, h3, lg2) \<Rightarrow> parse_cpu_set_loop p' c2 warn h3 lg2))))"
  by pat_completeness auto
termination
  by (relation "measure (\<lambda>(p, c, warn, h, lg). length p)")
     (auto dest: extract_first_word_length [OF sym])

declare parse_cpu_set_loop.simps [simp del]

definition parse_cpu_set_full ::
  "string \<Rightarrow> bool \<Rightarrow> heap \<Rightarrow> (error + CPUSet) \<times> heap \<times> diagnostic list" where
  "parse_cpu_set_full rvalue warn h = parse_cpu_set_loop rvalue cpu_set_empty warn h []"

text \<open>
  \<^verbatim>\<open>parse_cpu_set_extend\<close>: the text is parsed in warn mode whatever \<open>warn\<close> is; then
  the reset, the transfer or the union. It returns the return code, \<^verbatim>\<open>*old\<close>, the heap
  and the diagnostics.
\<close>

definition parse_cpu_set_extend ::
  "string \<Rightarrow> CPUSet \<Rightarrow> bool \<Rightarrow> heap \<Rightarrow> status \<times> CPUSet \<times> heap \<times> diagnostic list" where
  "parse_cpu_set_extend rvalue old warn h =
     (case parse_cpu_set_full rvalue True h of
        (Inl e, h1, lg) \<Rightarrow> (Inl e, old, h1, lg)
      | (Inr cpuset, h1, lg) \<Rightarrow>
          if set_c cpuset = None then (Inr (), cpu_set_reset old, h1, lg)
          else if set_c old = None then (Inr (), cpuset, h1, lg)
          else (case cpu_set_add_all old cpuset h1 of (r, old', h2) \<Rightarrow> (r, old', h2, lg)))"

text \<open>
  What counts as the diagnostic of a failure \<open>e\<close>, and what a run of the parser that
  started with the log \<open>lg\<close> may have added to it.
\<close>

definition failure_diagnostic :: "error \<Rightarrow> diagnostic \<Rightarrow> bool" where
  "failure_diagnostic e d =
     ((\<exists>m. d = Diagnostic LOG_ERR (Some e) m) \<or>
      (e = ENOMEM \<and> (\<exists>w l u. l > u \<and> d = Diagnostic LOG_WARNING None (Range_invalid w l u))))"

definition diagnosed :: "bool \<Rightarrow> diagnostic list \<Rightarrow> (error + CPUSet) \<Rightarrow> diagnostic list \<Rightarrow> bool" where
  "diagnosed warn lg res lg' =
     ((\<not> warn \<longrightarrow> lg' = lg) \<and>
      (warn \<longrightarrow> (\<forall>e. res = Inl e \<longrightarrow> (\<exists>ys d. lg' = ys @ [d] \<and> failure_diagnostic e d))))"

section \<open>Properties\<close>

subsection \<open>Growth and single additions\<close>

lemma CPU_ALLOC_SIZE_mono: "m \<le> n \<Longrightarrow> CPU_ALLOC_SIZE m \<le> CPU_ALLOC_SIZE n"
  by (simp add: CPU_ALLOC_SIZE_def div_le_mono)

lemma CPU_ALLOC_SIZE_bound: "n \<le> 8192 \<Longrightarrow> CPU_ALLOC_SIZE n \<le> 1024"
  unfolding CPU_ALLOC_SIZE_def by simp

lemma CPU_ALLOC_SIZE_mod: "CPU_ALLOC_SIZE n mod 8 = 0"
  by (simp add: CPU_ALLOC_SIZE_def)

lemma CPU_ALLOC_SIZE_covers: "cpu div 8 < CPU_ALLOC_SIZE (cpu + 1)"
  unfolding CPU_ALLOC_SIZE_def by simp

lemma granule_covers:
  assumes "a mod 8 = (0::nat)" and "cpu div 8 < a"
  shows "CPU_ALLOC_SIZE (cpu + 1) \<le> a"
proof -
  obtain k where k: "a = 8 * k"
    using assms(1) by (auto elim: dvdE simp: mod_eq_0_iff_dvd)
  have "cpu div 8 < 8 * k" using assms(2) k by simp
  then have "cpu < 64 * k" by arith
  then have "cpu div 64 < k" by arith
  then have "(cpu div 64 + 1) * 8 \<le> 8 * k" by simp
  moreover have "(cpu + 1 + 64 - 1) div 64 = cpu div 64 + 1" by simp
  ultimately show ?thesis
    unfolding CPU_ALLOC_SIZE_def k by simp
qed

lemma cpu_set_realloc_cases:
  "cpu_set_realloc a n h = (r, a', h') \<Longrightarrow>
     (r = Inl ENOMEM \<and> a' = a \<and> allocated a < CPU_ALLOC_SIZE n \<and> heap_alloc h = (False, h')) \<or>
     (r = Inr () \<and> a' = a \<and> h' = h \<and> CPU_ALLOC_SIZE n \<le> allocated a) \<or>
     (r = Inr () \<and> allocated a < CPU_ALLOC_SIZE n \<and> heap_alloc h = (True, h') \<and>
      a' = \<lparr>set_c = Some (take (allocated a) (bytes_of a)
                           @ replicate (CPU_ALLOC_SIZE n - allocated a) 0),
            allocated = CPU_ALLOC_SIZE n\<rparr>)"
  by (auto simp: cpu_set_realloc_def Let_def split: prod.splits if_splits)

lemma cpu_set_realloc_allocated:
  "cpu_set_realloc a n h = (r, a', h') \<Longrightarrow> allocated a \<le> allocated a'"
  by (drule cpu_set_realloc_cases) auto

lemma cpu_set_realloc_covers:
  "cpu_set_realloc a n h = (Inr u, a', h') \<Longrightarrow> CPU_ALLOC_SIZE n \<le> allocated a'"
  by (drule cpu_set_realloc_cases) auto

lemma cpu_set_realloc_wf:
  "wf_cpuset a \<Longrightarrow> n \<le> 8192 \<Longrightarrow> cpu_set_realloc a n h = (r, a', h') \<Longrightarrow> wf_cpuset a'"
  using CPU_ALLOC_SIZE_bound [of n]
  by (drule_tac cpu_set_realloc_cases)
     (auto simp: wf_cpuset_def bytes_of_def CPU_ALLOC_SIZE_mod split: option.splits)

lemma nth_append_zeros:
  "j < length xs + m \<Longrightarrow> (xs @ replicate m (0 :: 8 word)) ! j = (if j < length xs then xs ! j else 0)"
  by (simp add: nth_append)

lemma cpu_set_realloc_isset:
  assumes "wf_cpuset a" and "cpu_set_realloc a n h = (r, a', h')"
  shows "cpu_isset a' i = cpu_isset a i"
proof -
  from cpu_set_realloc_cases [OF assms(2)] show ?thesis
  proof (elim disjE conjE)
    assume lt: "allocated a < CPU_ALLOC_SIZE n"
      and a': "a' = \<lparr>set_c = Some (take (allocated a) (bytes_of a)
                           @ replicate (CPU_ALLOC_SIZE n - allocated a) 0),
            allocated = CPU_ALLOC_SIZE n\<rparr>"
    have len: "length (bytes_of a) = allocated a"
      using assms(1) by (auto simp: wf_cpuset_def bytes_of_def split: option.splits)
    show ?thesis
    proof (cases "i div 8 < CPU_ALLOC_SIZE n")
      case False
      then show ?thesis using lt by (simp add: a' cpu_isset_def CPU_ISSET_S_def bytes_of_def)
    next
      case True
      then have "i div 8 < length (bytes_of a) + (CPU_ALLOC_SIZE n - allocated a)"
        using lt len by simp
      from nth_append_zeros [OF this] True len show ?thesis
        by (simp add: a' cpu_isset_def CPU_ISSET_S_def bytes_of_def)
    qed
  qed simp_all
qed

lemma bit_or_exp_byte:
  "bit ((w :: 8 word) OR 2 ^ k) j \<longleftrightarrow> bit w j \<or> (j = k \<and> k < 8)"
  by (auto simp: bit_simps)

lemma CPU_SET_S_isset:
  assumes "length bs = n"
  shows "CPU_ISSET_S i n (CPU_SET_S cpu n bs) \<longleftrightarrow>
         CPU_ISSET_S i n bs \<or> (i = cpu \<and> cpu div 8 < n)"
proof (cases "cpu div 8 < n")
  case False
  then show ?thesis by (simp add: CPU_SET_S_def)
next
  case True
  have eq: "i div 8 = cpu div 8 \<and> i mod 8 = cpu mod 8 \<longleftrightarrow> i = cpu"
    by (metis div_mult_mod_eq)
  show ?thesis
    using True assms eq
    by (cases "i div 8 = cpu div 8")
       (auto simp: CPU_SET_S_def CPU_ISSET_S_def bit_or_exp_byte)
qed

lemma cpu_set_add_cases:
  "cpu_set_add a cpu h = (r, a', h') \<Longrightarrow>
     (r = Inl ERANGE \<and> 8192 \<le> cpu \<and> a' = a \<and> h' = h) \<or>
     (r = Inl ENOMEM \<and> cpu < 8192 \<and> a' = a \<and> cpu_set_realloc a (cpu + 1) h = (Inl ENOMEM, a, h')) \<or>
     (r = Inr () \<and> cpu < 8192 \<and>
      (\<exists>s. cpu_set_realloc a (cpu + 1) h = (Inr (), s, h') \<and>
           a' = s\<lparr>set_c := map_option (CPU_SET_S cpu (allocated s)) (set_c s)\<rparr>))"
  by (auto simp: cpu_set_add_def split: prod.splits sum.splits if_splits
           dest: cpu_set_realloc_cases)

lemma cpu_set_add_failure:
  "cpu_set_add a cpu h = (Inl e, a', h') \<Longrightarrow> a' = a"
  by (drule cpu_set_add_cases) auto

lemma cpu_set_add_allocated:
  "cpu_set_add a cpu h = (r, a', h') \<Longrightarrow> allocated a \<le> allocated a'"
  by (drule cpu_set_add_cases) (auto dest: cpu_set_realloc_allocated)

lemma cpu_set_add_covers:
  "cpu_set_add a cpu h = (Inr u, a', h') \<Longrightarrow> CPU_ALLOC_SIZE (cpu + 1) \<le> allocated a'"
  by (drule cpu_set_add_cases) (auto dest: cpu_set_realloc_covers)

lemma cpu_set_add_wf:
  assumes "wf_cpuset a" and "cpu_set_add a cpu h = (r, a', h')"
  shows "wf_cpuset a'"
proof -
  from cpu_set_add_cases [OF assms(2)] show ?thesis
  proof (elim disjE conjE exE)
    fix s
    assume "cpu < 8192" and re: "cpu_set_realloc a (cpu + 1) h = (Inr (), s, h')"
      and a': "a' = s\<lparr>set_c := map_option (CPU_SET_S cpu (allocated s)) (set_c s)\<rparr>"
    then have "wf_cpuset s"
      using cpu_set_realloc_wf [OF assms(1) _ re] by simp
    then show ?thesis
      by (auto simp: a' wf_cpuset_def CPU_SET_S_def split: option.splits)
  qed (use assms(1) in auto)
qed

lemma cpu_set_add_isset:
  assumes "wf_cpuset a" and "cpu_set_add a cpu h = (Inr u, a', h')"
  shows "cpu_isset a' i \<longleftrightarrow> cpu_isset a i \<or> i = cpu"
proof -
  from cpu_set_add_cases [OF assms(2)] obtain s where lt: "cpu < 8192"
    and re: "cpu_set_realloc a (cpu + 1) h = (Inr (), s, h')"
    and a': "a' = s\<lparr>set_c := map_option (CPU_SET_S cpu (allocated s)) (set_c s)\<rparr>"
    by auto
  have wfs: "wf_cpuset s"
    using cpu_set_realloc_wf [OF assms(1) _ re] lt by simp
  have cov: "cpu div 8 < allocated s"
    using cpu_set_realloc_covers [OF re] CPU_ALLOC_SIZE_covers [of cpu] by simp
  then obtain bs where bs: "set_c s = Some bs" "length bs = allocated s"
    using wfs by (auto simp: wf_cpuset_def split: option.splits)
  have "cpu_isset a' i \<longleftrightarrow> cpu_isset s i \<or> i = cpu"
    using CPU_SET_S_isset [OF bs(2), of i cpu] cov
    by (auto simp: a' cpu_isset_def bytes_of_def bs)
  then show ?thesis
    by (simp add: cpu_set_realloc_isset [OF assms(1) re])
qed

text \<open>
  C4. Ceiling boundary: for every set, adding index 8191 succeeds provided the
  growth request is granted, while adding 8192 or any larger index returns the range
  error and leaves the set, allocated size and buffer, exactly as it was.
\<close>

theorem cpu_set_add_ceiling:
  "(fst (heap_alloc h) \<longrightarrow> fst (cpu_set_add a 8191 h) = Inr ()) \<and>
   (\<forall>cpu\<ge>8192. cpu_set_add a cpu h = (Inl ERANGE, a, h))"
  by (auto simp: cpu_set_add_def cpu_set_realloc_def Let_def split: prod.splits sum.splits)

theorem cpu_set_add_ceiling_witness:
  "fst (heap_alloc []) \<and> fst (cpu_set_add cpu_set_empty 8191 []) = Inr () \<and>
   cpu_set_add cpu_set_empty 8192 [] = (Inl ERANGE, cpu_set_empty, [])"
  using cpu_set_add_ceiling [of "[]" cpu_set_empty] by simp

subsection \<open>Sequences of additions\<close>

lemma add_calls_sorted:
  "sorted (map allocated (add_calls a cpus h))"
proof (induction cpus arbitrary: a h)
  case Nil
  then show ?case by simp
next
  case (Cons cpu cpus)
  obtain r a' h' where ad: "cpu_set_add a cpu h = (r, a', h')"
    by (cases "cpu_set_add a cpu h") auto
  have le: "allocated a \<le> allocated a'" by (rule cpu_set_add_allocated [OF ad])
  have hd: "\<forall>x \<in> set (map allocated (add_calls a' cpus h')). allocated a' \<le> x"
    using Cons.IH [of a' h'] by (cases cpus) (auto split: prod.splits)
  show ?case
    using Cons.IH [of a' h'] hd le by (auto simp: ad)
qed

lemma byte_or_exp_id: "bit (w :: 8 word) k \<Longrightarrow> w OR 2 ^ k = w"
  by (rule bit_eqI) (auto simp: bit_simps)

lemma CPU_SET_S_present:
  "length bs = n \<Longrightarrow> CPU_ISSET_S cpu n bs \<Longrightarrow> CPU_SET_S cpu n bs = bs"
  by (simp add: CPU_SET_S_def CPU_ISSET_S_def byte_or_exp_id)

lemma cpu_set_add_present:
  assumes "wf_cpuset a" and "cpu_isset a cpu"
  shows "snd (cpu_set_add a cpu h) = (a, h)"
proof (cases "cpu < 8192")
  case False
  then show ?thesis by (simp add: cpu_set_add_def)
next
  case True
  have "cpu div 8 < allocated a"
    using assms(2) by (simp add: cpu_isset_def CPU_ISSET_S_def)
  then have cov: "CPU_ALLOC_SIZE (cpu + 1) \<le> allocated a"
    using assms(1) by (intro granule_covers) (simp_all add: wf_cpuset_def)
  obtain bs where bs: "set_c a = Some bs" "length bs = allocated a"
    using assms(1) \<open>cpu div 8 < allocated a\<close>
    by (auto simp: wf_cpuset_def split: option.splits)
  have "CPU_SET_S cpu (allocated a) bs = bs"
    using assms(2) bs by (intro CPU_SET_S_present) (simp_all add: cpu_isset_def bytes_of_def)
  then show ?thesis
    using True cov bs by (simp add: cpu_set_add_def cpu_set_realloc_def)
qed

text \<open>
  C7. Growth monotonicity and idempotence: along every sequence of add calls on a
  set the allocated byte count never decreases, whatever the calls return; and adding
  an index that is already a member of a set leaves the set as it is, membership,
  buffer and allocated size, and asks the allocator for nothing.
\<close>

theorem cpu_set_add_monotone_idempotent:
  "sorted (map allocated (add_calls a cpus h)) \<and>
   (wf_cpuset b \<and> cpu_isset b cpu \<longrightarrow> snd (cpu_set_add b cpu h) = (b, h))"
  using add_calls_sorted cpu_set_add_present by blast

theorem cpu_set_add_monotone_idempotent_witness:
  "map allocated (add_calls cpu_set_empty [70, 3, 9000, 3] []) = [0, 16, 16, 16, 16] \<and>
   wf_cpuset \<lparr>set_c = Some [8,0,0,0,0,0,0,0], allocated = 8\<rparr> \<and>
   cpu_isset \<lparr>set_c = Some [8,0,0,0,0,0,0,0], allocated = 8\<rparr> 3 \<and>
   cpu_set_add \<lparr>set_c = Some [8,0,0,0,0,0,0,0], allocated = 8\<rparr> 3 [] =
     (Inr (), \<lparr>set_c = Some [8,0,0,0,0,0,0,0], allocated = 8\<rparr>, [])"
  using cpu_set_add_monotone_idempotent
    [of cpu_set_empty "[70, 3, 9000, 3]" "[]" "\<lparr>set_c = Some [8,0,0,0,0,0,0,0], allocated = 8\<rparr>" 3]
  by (simp add: cpu_set_add_def cpu_set_realloc_def CPU_ALLOC_SIZE_def cpu_set_empty_def
        wf_cpuset_def cpu_isset_def CPU_ISSET_S_def CPU_SET_S_def bytes_of_def)

subsection \<open>Union\<close>

lemma cpu_set_add_all_loop_numeral:
  "cpu_set_add_all_loop a b (numeral k) h =
     (if CPU_ISSET_S (pred_numeral k) (allocated b) (bytes_of b) then
        (case cpu_set_add a (pred_numeral k) h of
           (Inl e, a', h') \<Rightarrow> (Inl e, a', h')
         | (Inr _, a', h') \<Rightarrow> cpu_set_add_all_loop a' b (pred_numeral k) h')
      else cpu_set_add_all_loop a b (pred_numeral k) h)"
  by (simp add: numeral_eq_Suc)

lemma cpu_set_add_covered:
  assumes "cpu < 8192" and "CPU_ALLOC_SIZE (cpu + 1) \<le> allocated a"
  shows "\<exists>a'. cpu_set_add a cpu h = (Inr (), a', h) \<and> allocated a' = allocated a"
  using assms by (simp add: cpu_set_add_def cpu_set_realloc_def)

lemma cpu_set_add_all_loop_covered:
  "n \<le> 8192 \<Longrightarrow> CPU_ALLOC_SIZE n \<le> allocated a \<Longrightarrow>
   \<exists>a'. cpu_set_add_all_loop a b n h = (Inr (), a', h)"
proof (induction n arbitrary: a)
  case 0
  then show ?case by simp
next
  case (Suc cpu)
  have cov: "CPU_ALLOC_SIZE cpu \<le> allocated a"
    using Suc.prems(2) CPU_ALLOC_SIZE_mono [of cpu "Suc cpu"] by simp
  show ?case
  proof (cases "CPU_ISSET_S cpu (allocated b) (bytes_of b)")
    case False
    then show ?thesis using Suc.IH [of a] Suc.prems(1) cov by simp
  next
    case True
    from cpu_set_add_covered [of cpu a h] Suc.prems
    obtain a1 where a1: "cpu_set_add a cpu h = (Inr (), a1, h)" "allocated a1 = allocated a"
      by auto
    from Suc.IH [of a1] Suc.prems(1) cov a1(2)
    show ?thesis using True a1(1) by simp
  qed
qed

lemma cpu_set_add_all_loop_failure:
  "cpu_set_add_all_loop a b n h = (Inl e, a', h') \<Longrightarrow> a' = a \<and> (e = ERANGE \<or> e = ENOMEM)"
proof (induction n arbitrary: a h)
  case 0
  then show ?case by simp
next
  case (Suc cpu)
  show ?case
  proof (cases "CPU_ISSET_S cpu (allocated b) (bytes_of b)")
    case False
    then show ?thesis using Suc by simp
  next
    case True
    obtain r a1 h1 where ad: "cpu_set_add a cpu h = (r, a1, h1)"
      by (cases "cpu_set_add a cpu h") auto
    show ?thesis
    proof (cases r)
      case (Inl e1)
      then show ?thesis
        using Suc.prems True ad cpu_set_add_cases [OF ad] by auto
    next
      case (Inr u)
      from cpu_set_add_cases [OF ad] Inr have lt: "cpu < 8192" by auto
      have "CPU_ALLOC_SIZE cpu \<le> allocated a1"
        using cpu_set_add_covers [of a cpu h u a1 h1] ad Inr
              CPU_ALLOC_SIZE_mono [of cpu "cpu + 1"] by simp
      from cpu_set_add_all_loop_covered [OF _ this, of b h1] lt
      obtain a2 where "cpu_set_add_all_loop a1 b cpu h1 = (Inr (), a2, h1)" by auto
      then show ?thesis using Suc.prems True ad Inr by simp
    qed
  qed
qed

lemma cpu_set_add_grant:
  assumes "cpu < 8192" and "fst (heap_alloc h) \<or> CPU_ALLOC_SIZE (cpu + 1) \<le> allocated a"
  shows "\<exists>a' h'. cpu_set_add a cpu h = (Inr (), a', h')"
  using assms
  by (auto simp: cpu_set_add_def cpu_set_realloc_def Let_def split: prod.splits)

lemma cpu_set_add_all_loop_union:
  assumes "wf_cpuset a"
    and "\<forall>i<n. CPU_ISSET_S i (allocated b) (bytes_of b) \<longrightarrow> i < 8192"
    and "fst (heap_alloc h) \<or>
         (\<forall>i<n. CPU_ISSET_S i (allocated b) (bytes_of b) \<longrightarrow> CPU_ALLOC_SIZE (i + 1) \<le> allocated a)"
  shows "\<exists>a' h'. cpu_set_add_all_loop a b n h = (Inr (), a', h') \<and> wf_cpuset a' \<and>
           (\<forall>i. cpu_isset a' i \<longleftrightarrow> cpu_isset a i \<or> (i < n \<and> cpu_isset b i))"
  using assms
proof (induction n arbitrary: a h)
  case 0
  then show ?case by simp
next
  case (Suc cpu)
  show ?case
  proof (cases "CPU_ISSET_S cpu (allocated b) (bytes_of b)")
    case False
    have "\<exists>a' h'. cpu_set_add_all_loop a b cpu h = (Inr (), a', h') \<and> wf_cpuset a' \<and>
           (\<forall>i. cpu_isset a' i \<longleftrightarrow> cpu_isset a i \<or> (i < cpu \<and> cpu_isset b i))"
      using Suc.prems by (intro Suc.IH) auto
    moreover have "\<And>i. (i < Suc cpu \<and> cpu_isset b i) \<longleftrightarrow> (i < cpu \<and> cpu_isset b i)"
      using False by (auto simp: cpu_isset_def less_Suc_eq)
    ultimately show ?thesis using False by simp
  next
    case True
    then have lt: "cpu < 8192" using Suc.prems(2) by simp
    have "fst (heap_alloc h) \<or> CPU_ALLOC_SIZE (cpu + 1) \<le> allocated a"
      using Suc.prems(3) True by auto
    from cpu_set_add_grant [OF lt this]
    obtain a1 h1 where ad: "cpu_set_add a cpu h = (Inr (), a1, h1)" by auto
    have wf1: "wf_cpuset a1" by (rule cpu_set_add_wf [OF Suc.prems(1) ad])
    have mem1: "\<And>i. cpu_isset a1 i \<longleftrightarrow> cpu_isset a i \<or> i = cpu"
      by (rule cpu_set_add_isset [OF Suc.prems(1) ad])
    have cov: "\<forall>i<cpu. CPU_ISSET_S i (allocated b) (bytes_of b) \<longrightarrow>
                 CPU_ALLOC_SIZE (i + 1) \<le> allocated a1"
    proof (intro allI impI)
      fix i assume "i < cpu"
      then have "CPU_ALLOC_SIZE (i + 1) \<le> CPU_ALLOC_SIZE (cpu + 1)"
        by (intro CPU_ALLOC_SIZE_mono) simp
      then show "CPU_ALLOC_SIZE (i + 1) \<le> allocated a1"
        using cpu_set_add_covers [OF ad] by simp
    qed
    have "\<exists>a' h'. cpu_set_add_all_loop a1 b cpu h1 = (Inr (), a', h') \<and> wf_cpuset a' \<and>
           (\<forall>i. cpu_isset a' i \<longleftrightarrow> cpu_isset a1 i \<or> (i < cpu \<and> cpu_isset b i))"
      using Suc.prems(2) cov wf1 by (intro Suc.IH) auto
    then obtain a' h' where res: "cpu_set_add_all_loop a1 b cpu h1 = (Inr (), a', h')"
      "wf_cpuset a'" "\<And>i. cpu_isset a' i \<longleftrightarrow> cpu_isset a1 i \<or> (i < cpu \<and> cpu_isset b i)"
      by blast
    have "\<And>i. cpu_isset a' i \<longleftrightarrow> cpu_isset a i \<or> (i < Suc cpu \<and> cpu_isset b i)"
      using res(3) mem1 True by (auto simp: cpu_isset_def less_Suc_eq)
    then show ?thesis using True ad res(1,2) by simp
  qed
qed

lemma cpu_isset_bound: "cpu_isset b i \<Longrightarrow> i < allocated b * 8"
  by (auto simp: cpu_isset_def CPU_ISSET_S_def)

text \<open>
  C3. Union atomicity: whenever \<^verbatim>\<open>cpu_set_add_all(A, B)\<close> fails, which it does only
  with the range error or the allocation error, \<open>A\<close> is exactly as it was before the
  call: same allocated size, same buffer.
\<close>

theorem cpu_set_add_all_atomic:
  "cpu_set_add_all a b h = (Inl e, a', h') \<Longrightarrow> a' = a \<and> (e = ERANGE \<or> e = ENOMEM)"
  unfolding cpu_set_add_all_def by (rule cpu_set_add_all_loop_failure)

theorem cpu_set_add_all_atomic_witness:
  "fst (cpu_set_add_all cpu_set_empty \<lparr>set_c = Some [8,0,0,0,0,0,0,0], allocated = 8\<rparr> [False])
     = Inl ENOMEM \<and>
   fst (snd (cpu_set_add_all cpu_set_empty
               \<lparr>set_c = Some [8,0,0,0,0,0,0,0], allocated = 8\<rparr> [False])) = cpu_set_empty"
proof -
  have run: "cpu_set_add_all cpu_set_empty \<lparr>set_c = Some [8,0,0,0,0,0,0,0], allocated = 8\<rparr> [False]
               = (Inl ENOMEM, cpu_set_empty, [])"
    by (simp add: cpu_set_add_all_def cpu_set_add_all_loop_numeral CPU_ISSET_S_def bytes_of_def
          cpu_set_add_def cpu_set_realloc_def CPU_ALLOC_SIZE_def cpu_set_empty_def)
  from cpu_set_add_all_atomic [OF run] run show ?thesis by simp
qed

subsection \<open>The prober\<close>

lemma trial_0: "trial 0 = 1024" by (simp add: trial_def)

lemma trial_Suc: "(trial k * 2) mod 2 ^ 32 = trial (Suc k)"
proof -
  have "(trial k * 2) mod 2 ^ 32 = ((1024 * 2 ^ k) mod 2 ^ 32 * 2) mod 2 ^ 32"
    by (simp only: trial_def)
  also have "\<dots> = (1024 * 2 ^ k * 2) mod 2 ^ 32"
    by (rule mod_mult_left_eq)
  also have "1024 * 2 ^ k * 2 = (1024::nat) * 2 ^ Suc k"
    by simp
  finally show ?thesis by (simp only: trial_def)
qed

lemma cpu_set_malloc_loop_unfold:
  "cpu_set_malloc_loop host n h =
     (if \<not> fst (heap_alloc h) then Some (None, snd (heap_alloc h))
      else case host (CPU_ALLOC_SIZE n) of
             None \<Rightarrow> Some (Some (replicate (CPU_ALLOC_SIZE n) 0, n), snd (heap_alloc h))
           | Some errno \<Rightarrow>
               if errno \<noteq> EINVAL then Some (None, snd (heap_alloc h))
               else cpu_set_malloc_loop host ((n * 2) mod 2 ^ 32) (snd (heap_alloc h)))"
  by (subst cpu_set_malloc_loop.simps) (cases "heap_alloc h", simp split: option.splits)

lemma malloc_post_step:
  assumes IH: "\<And>n h y. loop host n h = Some y \<Longrightarrow> malloc_post host n y"
    and body: "(case heap_alloc h of
      (ok, h') \<Rightarrow>
        if \<not> ok then Some (None, h')
        else case host (CPU_ALLOC_SIZE n) of
             None \<Rightarrow> Some (Some (replicate (CPU_ALLOC_SIZE n) 0, n), h')
             | Some errno \<Rightarrow>
                 if errno \<noteq> EINVAL then Some (None, h')
                 else loop host (n * 2 mod 2 ^ 32) h') = Some y"
  shows "malloc_post host n y"
  unfolding malloc_post_def
proof (intro allI impI)
  fix k buf m h'
  assume n: "n = trial k"
    and prev: "\<forall>j<k. host (CPU_ALLOC_SIZE (trial j)) = Some EINVAL"
    and y: "y = (Some (buf, m), h')"
  obtain ok h1 where ha: "heap_alloc h = (ok, h1)" by (cases "heap_alloc h") auto
  have ok: ok
    using body y ha by (cases ok) simp_all
  show "\<exists>k'. m = trial k' \<and> host (CPU_ALLOC_SIZE m) = None \<and>
               (\<forall>j<k'. host (CPU_ALLOC_SIZE (trial j)) = Some EINVAL) \<and>
               buf = replicate (CPU_ALLOC_SIZE m) 0"
  proof (cases "host (CPU_ALLOC_SIZE n)")
    case None
    then have "m = n \<and> buf = replicate (CPU_ALLOC_SIZE n) 0"
      using body y ha ok by auto
    then show ?thesis using None n prev by blast
  next
    case (Some e)
    have e: "e = EINVAL"
      using body y ha ok Some by (cases "e = EINVAL") simp_all
    have rec: "loop host ((n * 2) mod 2 ^ 32) h1 = Some y"
      using body ha ok Some e by simp
    have all: "\<forall>j<Suc k. host (CPU_ALLOC_SIZE (trial j)) = Some EINVAL"
      using prev Some e n by (simp add: less_Suc_eq)
    have nn: "(n * 2) mod 2 ^ 32 = trial (Suc k)"
      unfolding n by (rule trial_Suc)
    from IH [OF rec] nn all y show ?thesis
      unfolding malloc_post_def by blast
  qed
qed

lemma cpu_set_malloc_loop_result:
  assumes "cpu_set_malloc_loop host n h = Some y"
  shows "malloc_post host n y"
  by (rule cpu_set_malloc_loop.raw_induct
        [where P = "\<lambda>host n h y. malloc_post host n y", OF _ assms])
     (rule malloc_post_step)

lemma trial_small: "k < 22 \<Longrightarrow> trial k = 1024 * 2 ^ k"
proof -
  assume "k < 22"
  then have "(2::nat) ^ k \<le> 2 ^ 21" by (intro power_increasing) simp_all
  then have "(1024::nat) * 2 ^ k < 2 ^ 32" by simp
  then show ?thesis unfolding trial_def by (rule mod_less)
qed

lemma trial_wrapped: "22 \<le> k \<Longrightarrow> trial k = 0"
proof -
  assume "22 \<le> k"
  then obtain d where k: "k = 22 + d" using le_Suc_ex by blast
  have "(1024::nat) * 2 ^ k = 2 ^ 32 * 2 ^ d"
    unfolding k power_add by simp
  then show ?thesis unfolding trial_def by simp
qed

lemma cpu_set_malloc_loop_fails:
  "\<not> fst (heap_alloc h) \<or> (\<exists>e. host (CPU_ALLOC_SIZE n) = Some e \<and> e \<noteq> EINVAL) \<Longrightarrow>
   cpu_set_malloc_loop host n h = Some (None, snd (heap_alloc h))"
  by (subst cpu_set_malloc_loop_unfold) auto

lemma cpu_set_malloc_loop_retries:
  "(\<forall>j<k. host (CPU_ALLOC_SIZE (trial (i + j))) = Some EINVAL) \<Longrightarrow>
   cpu_set_malloc_loop host (trial i) [] = cpu_set_malloc_loop host (trial (i + k)) []"
proof (induction k arbitrary: i)
  case 0
  then show ?case by simp
next
  case (Suc k)
  have "host (CPU_ALLOC_SIZE (trial i)) = Some EINVAL"
    using Suc.prems [rule_format, of 0] by simp
  then have "cpu_set_malloc_loop host (trial i) [] = cpu_set_malloc_loop host (trial (Suc i)) []"
    using trial_Suc [of i] by (subst cpu_set_malloc_loop_unfold) simp
  also have "\<dots> = cpu_set_malloc_loop host (trial (Suc i + k)) []"
    using Suc.prems by (intro Suc.IH) (auto dest: spec [of _ "Suc _"])
  finally show ?case by simp
qed

lemma CPU_ALLOC_SIZE_pos: "0 < n \<Longrightarrow> 0 < CPU_ALLOC_SIZE n"
  unfolding CPU_ALLOC_SIZE_def by simp

lemma wrapped_run:
  "cpu_set_malloc (\<lambda>sz. if sz = 0 then None else Some EINVAL) [] = Some (Some ([], 0), [])"
proof -
  let ?host = "\<lambda>sz::nat. if sz = 0 then None else Some EINVAL"
  have "\<forall>j<22. ?host (CPU_ALLOC_SIZE (trial (0 + j))) = Some EINVAL"
  proof (intro allI impI)
    fix j :: nat assume j: "j < 22"
    have "0 < CPU_ALLOC_SIZE (trial j)"
      by (rule CPU_ALLOC_SIZE_pos) (simp add: trial_small [OF j])
    then show "?host (CPU_ALLOC_SIZE (trial (0 + j))) = Some EINVAL" by simp
  qed
  from cpu_set_malloc_loop_retries [of 22 ?host 0, OF this]
  have "cpu_set_malloc ?host [] = cpu_set_malloc_loop ?host 0 []"
    by (simp add: cpu_set_malloc_def trial_0 trial_wrapped)
  also have "\<dots> = Some (Some ([], 0), [])"
    by (subst cpu_set_malloc_loop_unfold) (simp add: CPU_ALLOC_SIZE_def)
  finally show ?thesis .
qed

text \<open>
  The trial count is an \<^verbatim>\<open>unsigned\<close>, so for an arbitrary host the hint is
  \<open>1024 * 2 ^ k\<close> reduced modulo \<open>2 ^ 32\<close>, where \<open>k\<close> counts the doublings:
  \<open>1024 * 2 ^ k\<close> itself while \<open>k < 22\<close>, and 0 from the 22nd doubling on.
\<close>

lemma cpu_set_malloc_modular:
  "(cpu_set_malloc host h = Some (Some (buf, n), h') \<longrightarrow>
      (\<exists>k. n = (1024 * 2 ^ k) mod 2 ^ 32 \<and> (k < 22 \<longrightarrow> n = 1024 * 2 ^ k) \<and>
           (22 \<le> k \<longrightarrow> n = 0) \<and>
           host (CPU_ALLOC_SIZE n) = None \<and>
           (\<forall>j<k. host (CPU_ALLOC_SIZE ((1024 * 2 ^ j) mod 2 ^ 32)) = Some EINVAL) \<and>
           buf = replicate (CPU_ALLOC_SIZE n) 0)) \<and>
   (\<forall>m g. \<not> fst (heap_alloc g) \<or> (\<exists>e. host (CPU_ALLOC_SIZE m) = Some e \<and> e \<noteq> EINVAL) \<longrightarrow>
          cpu_set_malloc_loop host m g = Some (None, snd (heap_alloc g)))"
proof (intro conjI impI allI)
  assume run: "cpu_set_malloc host h = Some (Some (buf, n), h')"
  then have "malloc_post host 1024 (Some (buf, n), h')"
    unfolding cpu_set_malloc_def by (rule cpu_set_malloc_loop_result)
  from this [unfolded malloc_post_def, rule_format, of 0 buf n h']
  have "\<exists>k. n = trial k \<and> host (CPU_ALLOC_SIZE n) = None \<and>
          (\<forall>j<k. host (CPU_ALLOC_SIZE (trial j)) = Some EINVAL) \<and>
          buf = replicate (CPU_ALLOC_SIZE n) 0"
    by (simp add: trial_0)
  then obtain k where k: "n = trial k" "host (CPU_ALLOC_SIZE n) = None"
      "\<forall>j<k. host (CPU_ALLOC_SIZE (trial j)) = Some EINVAL"
      "buf = replicate (CPU_ALLOC_SIZE n) 0"
    by blast
  show "\<exists>k. n = (1024 * 2 ^ k) mod 2 ^ 32 \<and> (k < 22 \<longrightarrow> n = 1024 * 2 ^ k) \<and>
           (22 \<le> k \<longrightarrow> n = 0) \<and>
           host (CPU_ALLOC_SIZE n) = None \<and>
           (\<forall>j<k. host (CPU_ALLOC_SIZE ((1024 * 2 ^ j) mod 2 ^ 32)) = Some EINVAL) \<and>
           buf = replicate (CPU_ALLOC_SIZE n) 0"
  proof (intro exI [of _ k] conjI impI)
    show "n = (1024 * 2 ^ k) mod 2 ^ 32" using k(1) by (simp only: trial_def)
    show "n = 1024 * 2 ^ k" if "k < 22" using k(1) trial_small [OF that] by simp
    show "n = 0" if "22 \<le> k" using k(1) trial_wrapped [OF that] by simp
    show "host (CPU_ALLOC_SIZE n) = None" by (rule k(2))
    show "\<forall>j<k. host (CPU_ALLOC_SIZE ((1024 * 2 ^ j) mod 2 ^ 32)) = Some EINVAL"
      using k(3) by (simp only: trial_def)
    show "buf = replicate (CPU_ALLOC_SIZE n) 0" by (rule k(4))
  qed
next
  fix m g
  assume "\<not> fst (heap_alloc g) \<or> (\<exists>e. host (CPU_ALLOC_SIZE m) = Some e \<and> e \<noteq> EINVAL)"
  then show "cpu_set_malloc_loop host m g = Some (None, snd (heap_alloc g))"
    by (rule cpu_set_malloc_loop_fails)
qed

lemma doubled_twice_run:
  "cpu_set_malloc (\<lambda>sz. if sz < 512 then Some EINVAL else None) [] =
     Some (Some (replicate 512 0, 4096), [])"
proof -
  let ?host = "\<lambda>sz::nat. if sz < 512 then Some EINVAL else None"
  have "\<forall>j<2. ?host (CPU_ALLOC_SIZE (trial (0 + j))) = Some EINVAL"
    by (simp add: less_Suc_eq numeral_2_eq_2 trial_small CPU_ALLOC_SIZE_def)
  from cpu_set_malloc_loop_retries [of 2 ?host 0, OF this]
  have "cpu_set_malloc ?host [] = cpu_set_malloc_loop ?host 4096 []"
    by (simp add: cpu_set_malloc_def trial_0 trial_small)
  also have "\<dots> = Some (Some (replicate 512 0, 4096), [])"
    by (subst cpu_set_malloc_loop_unfold) (simp add: CPU_ALLOC_SIZE_def)
  finally show ?thesis .
qed

lemma CPU_ALLOC_SIZE_0: "CPU_ALLOC_SIZE 0 = 0"
  by (simp add: CPU_ALLOC_SIZE_def)

text \<open>
  C8. Prober result, for a host that refuses a buffer of capacity 0, as
  \<^verbatim>\<open>sched_getaffinity\<close> does: whenever \<^verbatim>\<open>cpu_set_malloc\<close> returns a buffer, the trial
  count it records as the hint is \<open>1024 * 2 ^ k\<close> for some \<open>k\<close>, the host query succeeded
  at the capacity for that count, it failed with \<^verbatim>\<open>EINVAL\<close>, buffer too small, at the
  capacity for every smaller trial count \<open>1024 * 2 ^ j\<close> with \<open>j < k\<close>, and the returned
  buffer is all zero. In every round a failed allocation, or a host failure other than
  \<^verbatim>\<open>EINVAL\<close>, returns \<^verbatim>\<open>NULL\<close> at once, without another trial.
\<close>

theorem cpu_set_malloc_result:
  assumes "host 0 \<noteq> None"
  shows
    "(cpu_set_malloc host h = Some (Some (buf, n), h') \<longrightarrow>
        (\<exists>k. n = 1024 * 2 ^ k \<and>
             host (CPU_ALLOC_SIZE n) = None \<and>
             (\<forall>j<k. host (CPU_ALLOC_SIZE (1024 * 2 ^ j)) = Some EINVAL) \<and>
             buf = replicate (CPU_ALLOC_SIZE n) 0)) \<and>
     (\<forall>m g. \<not> fst (heap_alloc g) \<or> (\<exists>e. host (CPU_ALLOC_SIZE m) = Some e \<and> e \<noteq> EINVAL) \<longrightarrow>
            cpu_set_malloc_loop host m g = Some (None, snd (heap_alloc g)))"
proof (intro conjI impI allI)
  assume run: "cpu_set_malloc host h = Some (Some (buf, n), h')"
  then have "malloc_post host 1024 (Some (buf, n), h')"
    unfolding cpu_set_malloc_def by (rule cpu_set_malloc_loop_result)
  from this [unfolded malloc_post_def, rule_format, of 0 buf n h']
  have "\<exists>k. n = trial k \<and> host (CPU_ALLOC_SIZE n) = None \<and>
          (\<forall>j<k. host (CPU_ALLOC_SIZE (trial j)) = Some EINVAL) \<and>
          buf = replicate (CPU_ALLOC_SIZE n) 0"
    by (simp add: trial_0)
  then obtain k where k: "n = trial k" "host (CPU_ALLOC_SIZE n) = None"
      "\<forall>j<k. host (CPU_ALLOC_SIZE (trial j)) = Some EINVAL"
      "buf = replicate (CPU_ALLOC_SIZE n) 0"
    by blast
  have small: "k < 22"
  proof (rule ccontr)
    assume "\<not> k < 22"
    then have "n = 0" using k(1) trial_wrapped [of k] by simp
    then have "host 0 = None" using k(2) by (simp add: CPU_ALLOC_SIZE_0)
    with assms show False by simp
  qed
  show "\<exists>k. n = 1024 * 2 ^ k \<and>
             host (CPU_ALLOC_SIZE n) = None \<and>
             (\<forall>j<k. host (CPU_ALLOC_SIZE (1024 * 2 ^ j)) = Some EINVAL) \<and>
             buf = replicate (CPU_ALLOC_SIZE n) 0"
  proof (intro exI [of _ k] conjI allI impI)
    show "n = 1024 * 2 ^ k" using k(1) trial_small [OF small] by simp
    show "host (CPU_ALLOC_SIZE n) = None" by (rule k(2))
    show "host (CPU_ALLOC_SIZE (1024 * 2 ^ j)) = Some EINVAL" if "j < k" for j
    proof -
      have "j < 22" using that small by simp
      then have "trial j = 1024 * 2 ^ j" by (rule trial_small)
      with k(3) that show ?thesis by auto
    qed
    show "buf = replicate (CPU_ALLOC_SIZE n) 0" by (rule k(4))
  qed
next
  fix m g
  assume "\<not> fst (heap_alloc g) \<or> (\<exists>e. host (CPU_ALLOC_SIZE m) = Some e \<and> e \<noteq> EINVAL)"
  then show "cpu_set_malloc_loop host m g = Some (None, snd (heap_alloc g))"
    by (rule cpu_set_malloc_loop_fails)
qed

theorem cpu_set_malloc_result_witness:
  "(if (0 :: nat) < 512 then Some EINVAL else None) \<noteq> None \<and>
   cpu_set_malloc (\<lambda>sz. if sz < 512 then Some EINVAL else None) [] =
     Some (Some (replicate 512 0, 4096), []) \<and>
   (\<exists>k. (4096 :: nat) = 1024 * 2 ^ k \<and>
        (if CPU_ALLOC_SIZE 4096 < 512 then Some EINVAL else None) = None \<and>
        (\<forall>j<k. (if CPU_ALLOC_SIZE (1024 * 2 ^ j) < 512 then Some EINVAL else None)
                 = Some EINVAL) \<and>
        replicate 512 0 = replicate (CPU_ALLOC_SIZE 4096) (0 :: 8 word)) \<and>
   cpu_set_malloc_loop (\<lambda>sz. if sz < 512 then Some EINVAL else None) 1024 [False] = Some (None, [])"
proof -
  let ?host = "\<lambda>sz::nat. if sz < 512 then Some EINVAL else None"
  have refuses: "?host 0 \<noteq> None" by simp
  note res = cpu_set_malloc_result
    [where host = ?host and h = "[]" and buf = "replicate 512 0" and n = 4096 and h' = "[]",
     OF refuses]
  note a = res [THEN conjunct1, rule_format, OF doubled_twice_run]
  have f: "cpu_set_malloc_loop ?host 1024 [False] = Some (None, [])"
    using res [THEN conjunct2, rule_format, of "[False]" 1024] by simp
  have r: "(if (0 :: nat) < 512 then Some EINVAL else None) \<noteq> None" by simp
  show ?thesis
    by (intro conjI r doubled_twice_run a f)
qed

subsection \<open>Decimal numbers and tokens\<close>

lemma digit_char_of: "(d :: nat) < 10 \<Longrightarrow> digit (char_of (48 + d))"
  by (simp add: digit_def)

lemma digit_value: "(d :: nat) < 10 \<Longrightarrow> (of_char (char_of (48 + d)) :: nat) - 48 = d"
  by simp

lemma digit_not_separator: "digit c \<Longrightarrow> \<not> separator c"
  by (auto simp: digit_def separator_def)

lemma digit_not_quote: "digit c \<Longrightarrow> \<not> quote_char c"
  by (auto simp: digit_def quote_char_def)

lemma digit_not_dash: "digit c \<Longrightarrow> c \<noteq> CHR ''-''"
  by (auto simp: digit_def)

lemma decimal_digits: "list_all digit (decimal n)"
proof (induction n rule: decimal.induct)
  case (1 n)
  show ?case
  proof (cases "n < 10")
    case True
    then show ?thesis by (subst decimal.simps) (simp add: digit_char_of)
  next
    case False
    then show ?thesis
      using 1 by (subst decimal.simps) (simp add: digit_char_of)
  qed
qed

lemma decimal_nonempty: "decimal n \<noteq> []"
  by (subst decimal.simps) simp

lemma decimal_value:
  "foldl (\<lambda>a c. 10 * a + (of_char c - 48)) (0 :: nat) (decimal n) = n"
proof (induction n rule: decimal.induct)
  case (1 n)
  show ?case
  proof (cases "n < 10")
    case True
    then show ?thesis by (subst decimal.simps) simp
  next
    case False
    then show ?thesis
      using 1 by (subst decimal.simps) simp
  qed
qed

lemma safe_atou_decimal: "n < 2 ^ 32 \<Longrightarrow> safe_atou (decimal n) = Inr n"
  by (simp add: safe_atou_def decimal_digits decimal_nonempty decimal_value)

lemma takeWhile_all: "list_all P xs \<Longrightarrow> takeWhile P xs = xs"
  by (induction xs) simp_all

lemma dropWhile_all: "list_all P xs \<Longrightarrow> dropWhile P xs = []"
  by (induction xs) simp_all

lemma parse_range_decimal: "n < 2 ^ 32 \<Longrightarrow> parse_range (decimal n) = Inr (n, n)"
proof -
  assume n: "n < 2 ^ 32"
  have "list_all (\<lambda>c. c \<noteq> CHR ''-'') (decimal n)"
    using decimal_digits [of n] by (auto simp: list_all_iff dest: digit_not_dash)
  then show ?thesis
    using n by (simp add: parse_range_def takeWhile_all dropWhile_all safe_atou_decimal)
qed

lemma heap_grants_alloc: "heap_grants h \<Longrightarrow> heap_alloc h = (True, tl h) \<and> heap_grants (tl h)"
  by (cases h) (auto simp: heap_grants_def)

lemma heap_grants_fst: "heap_grants h \<Longrightarrow> fst (heap_alloc h)"
  by (simp add: heap_grants_alloc)

lemma cpu_set_realloc_heap_grants:
  "heap_grants h \<Longrightarrow> cpu_set_realloc a n h = (r, a', h') \<Longrightarrow> heap_grants h' \<and> r = Inr ()"
  by (drule cpu_set_realloc_cases) (auto dest: heap_grants_alloc)

lemma cpu_set_add_heap_grants:
  "heap_grants h \<Longrightarrow> cpu_set_add a cpu h = (r, a', h') \<Longrightarrow> heap_grants h'"
  by (drule cpu_set_add_cases) (auto dest: cpu_set_realloc_heap_grants)

lemma render_Cons: "render (i # js) = decimal i @ (if js = [] then [] else CHR '' '' # render js)"
  by (cases js) simp_all

lemma render_first:
  "\<exists>d ds. render (i # js) = d # ds \<and> digit d"
proof -
  obtain d ds where d: "decimal i = d # ds"
    using decimal_nonempty [of i] by (cases "decimal i") auto
  then have "digit d" using decimal_digits [of i] by simp
  then show ?thesis using d by (simp add: render_Cons)
qed

lemma dropWhile_separator_render: "dropWhile separator (render js) = render js"
proof (cases js)
  case Nil
  then show ?thesis by simp
next
  case (Cons i ks)
  from render_first [of i ks] obtain d ds where "render (i # ks) = d # ds" "digit d" by blast
  then show ?thesis using Cons by (simp add: digit_not_separator)
qed

lemma scan_word_digits_end:
  "list_all digit w \<Longrightarrow> scan_word None w = Inr (w, [])"
  by (induction w) (simp_all add: digit_not_separator digit_not_quote)

lemma separator_space: "separator CHR '' ''" "\<not> quote_char CHR '' ''"
  by (simp_all add: separator_def quote_char_def)

lemma scan_word_digits_space:
  "list_all digit w \<Longrightarrow>
   scan_word None (w @ (CHR '' '' # rest)) = Inr (w, dropWhile separator rest)"
  by (induction w) (simp_all add: digit_not_separator digit_not_quote separator_space)

lemma scan_word_render:
  "scan_word None (render (i # js)) = Inr (decimal i, render js)"
proof (cases js)
  case Nil
  then show ?thesis by (simp add: scan_word_digits_end decimal_digits)
next
  case (Cons j ks)
  have "scan_word None (decimal i @ (CHR '' '' # render (j # ks)))
          = Inr (decimal i, dropWhile separator (render (j # ks)))"
    by (rule scan_word_digits_space [OF decimal_digits])
  then show ?thesis using Cons by (simp add: dropWhile_separator_render)
qed

lemma extract_first_word_render:
  assumes "heap_grants h"
  shows "extract_first_word (render (i # js)) h = (Inr (Some (decimal i, render js)), tl h)"
proof -
  from render_first [of i js] obtain d ds where r: "render (i # js) = d # ds" by blast
  have dw: "dropWhile separator (render (i # js)) = d # ds"
    using dropWhile_separator_render [of "i # js"] r by simp
  have sw: "scan_word None (d # ds) = Inr (decimal i, render js)"
    using scan_word_render [of i js] r by simp
  show ?thesis
    unfolding extract_first_word_def dw
    using heap_grants_alloc [OF assms] sw by simp
qed

subsection \<open>Parsing a rendered set\<close>

lemma parse_add_loop_done:
  "n \<le> cpu_lower \<Longrightarrow> parse_add_loop c cpu_lower n warn h lg = (Inr c, h, lg)"
  by (cases n) simp_all

lemma parse_add_loop_single:
  assumes "cpu < 8192" and "cpu_set_add c cpu h = (Inr (), c', h')"
  shows "parse_add_loop c cpu (min cpu (2 ^ 32 - 2) + 1) warn h lg = (Inr c', h', lg)"
proof -
  have "min cpu (2 ^ 32 - 2) + 1 = Suc cpu" using assms(1) by simp
  then show ?thesis
    using assms(2) by (simp add: parse_add_loop_done)
qed

lemma parse_cpu_set_loop_end:
  "parse_cpu_set_loop [] c warn h lg = (Inr c, h, lg)"
  by (subst parse_cpu_set_loop.simps) (simp add: extract_first_word_def)

lemma parse_cpu_set_loop_word:
  assumes "extract_first_word p h = (Inr (Some (decimal i, p')), h1)"
    and "i < 8192" and "cpu_set_add c i h1 = (Inr (), c1, h2)"
  shows "parse_cpu_set_loop p c warn h lg = parse_cpu_set_loop p' c1 warn h2 lg"
proof -
  have pr: "parse_range (decimal i) = Inr (i, i)"
    using assms(2) by (intro parse_range_decimal) simp
  have pa: "parse_add_loop c i (min i (2 ^ 32 - 2) + 1) warn h1 lg = (Inr c1, h2, lg)"
    by (rule parse_add_loop_single [OF assms(2,3)])
  show ?thesis
    by (subst parse_cpu_set_loop.simps)
       (simp only: assms(1) pr pa prod.case sum.case option.case Let_def less_irrefl
          if_False simp_thms)
qed

lemma parse_cpu_set_loop_render:
  assumes "wf_cpuset c" and "\<forall>i\<in>set js. i < 8192" and "heap_grants h"
  shows "\<exists>c' h'. parse_cpu_set_loop (render js) c warn h lg = (Inr c', h', lg) \<and>
           wf_cpuset c' \<and> heap_grants h' \<and>
           (\<forall>i. cpu_isset c' i \<longleftrightarrow> cpu_isset c i \<or> i \<in> set js)"
  using assms
proof (induction js arbitrary: c h)
  case Nil
  then show ?case by (simp add: parse_cpu_set_loop_end)
next
  case (Cons i js)
  have lt: "i < 8192" using Cons.prems(2) by simp
  have ex: "extract_first_word (render (i # js)) h = (Inr (Some (decimal i, render js)), tl h)"
    by (rule extract_first_word_render [OF Cons.prems(3)])
  have g1: "heap_grants (tl h)"
    using heap_grants_alloc [OF Cons.prems(3)] by simp
  from cpu_set_add_grant [OF lt, of "tl h" c] heap_grants_fst [OF g1]
  obtain c1 h2 where ad: "cpu_set_add c i (tl h) = (Inr (), c1, h2)" by blast
  have wf1: "wf_cpuset c1" by (rule cpu_set_add_wf [OF Cons.prems(1) ad])
  have g2: "heap_grants h2" by (rule cpu_set_add_heap_grants [OF g1 ad])
  have mem: "\<And>k. cpu_isset c1 k \<longleftrightarrow> cpu_isset c k \<or> k = i"
    by (rule cpu_set_add_isset [OF Cons.prems(1) ad])
  have step: "parse_cpu_set_loop (render (i # js)) c warn h lg
                = parse_cpu_set_loop (render js) c1 warn h2 lg"
    by (rule parse_cpu_set_loop_word [OF ex lt ad])
  from Cons.IH [OF wf1 _ g2] Cons.prems(2)
  obtain c' h' where res: "parse_cpu_set_loop (render js) c1 warn h2 lg = (Inr c', h', lg)"
    "wf_cpuset c'" "heap_grants h'" "\<And>k. cpu_isset c' k \<longleftrightarrow> cpu_isset c1 k \<or> k \<in> set js"
    by auto
  have "\<And>k. cpu_isset c' k \<longleftrightarrow> cpu_isset c k \<or> k \<in> set (i # js)"
    using res(4) mem by auto
  then show ?case
    using step res(1,2,3) by auto
qed

subsection \<open>Building and rendering\<close>

lemma wf_cpuset_empty: "wf_cpuset cpu_set_empty"
  by (simp add: wf_cpuset_def cpu_set_empty_def)

lemma cpu_isset_empty: "\<not> cpu_isset cpu_set_empty i"
  by (simp add: cpu_isset_def CPU_ISSET_S_def cpu_set_empty_def)

lemma cpu_set_add_list_built:
  assumes "wf_cpuset a" and "\<forall>i\<in>set cpus. i < 8192" and "heap_grants h"
  shows "\<exists>a' h'. cpu_set_add_list a cpus h = (Inr (), a', h') \<and> wf_cpuset a' \<and> heap_grants h' \<and>
           (\<forall>i. cpu_isset a' i \<longleftrightarrow> cpu_isset a i \<or> i \<in> set cpus)"
  using assms
proof (induction cpus arbitrary: a h)
  case Nil
  then show ?case by simp
next
  case (Cons cpu cpus)
  have lt: "cpu < 8192" using Cons.prems(2) by simp
  from cpu_set_add_grant [OF lt, of h a] heap_grants_fst [OF Cons.prems(3)]
  obtain a1 h1 where ad: "cpu_set_add a cpu h = (Inr (), a1, h1)" by blast
  have wf1: "wf_cpuset a1" by (rule cpu_set_add_wf [OF Cons.prems(1) ad])
  have g1: "heap_grants h1" by (rule cpu_set_add_heap_grants [OF Cons.prems(3) ad])
  have mem: "\<And>k. cpu_isset a1 k \<longleftrightarrow> cpu_isset a k \<or> k = cpu"
    by (rule cpu_set_add_isset [OF Cons.prems(1) ad])
  from Cons.IH [OF wf1 _ g1] Cons.prems(2)
  obtain a' h' where res: "cpu_set_add_list a1 cpus h1 = (Inr (), a', h')"
    "wf_cpuset a'" "heap_grants h'" "\<And>k. cpu_isset a' k \<longleftrightarrow> cpu_isset a1 k \<or> k \<in> set cpus"
    by auto
  have "\<And>k. cpu_isset a' k \<longleftrightarrow> cpu_isset a k \<or> k \<in> set (cpu # cpus)"
    using res(4) mem by auto
  then show ?case using ad res(1,2,3) by auto
qed

lemma foldl_append_index:
  "s \<noteq> [] \<Longrightarrow> foldl append_index s js = s @ concat (map (\<lambda>i. CHR '' '' # decimal i) js)"
proof (induction js arbitrary: s)
  case Nil
  then show ?case by simp
next
  case (Cons j js)
  have "append_index s j \<noteq> []" using Cons.prems by (simp add: append_index_def)
  from Cons.IH [OF this] Cons.prems show ?case by (simp add: append_index_def)
qed

lemma render_concat:
  "render (i # js) = decimal i @ concat (map (\<lambda>i. CHR '' '' # decimal i) js)"
  by (induction js arbitrary: i) (simp_all add: render_Cons)

lemma foldl_append_index_render: "foldl append_index [] js = render js"
proof (cases js)
  case Nil
  then show ?thesis by simp
next
  case (Cons j ks)
  have "foldl append_index [] (j # ks) = foldl append_index (decimal j) ks"
    by (simp add: append_index_def)
  also have "\<dots> = render (j # ks)"
    by (simp add: foldl_append_index [OF decimal_nonempty] render_concat)
  finally show ?thesis using Cons by simp
qed

lemma cpu_set_to_string_loop_Cons:
  "cpu_set_to_string_loop a (j # js) str h =
     (if \<not> cpu_isset a j then cpu_set_to_string_loop a js str h
      else if \<not> fst (heap_alloc h) then (Inl ENOMEM, snd (heap_alloc h))
      else cpu_set_to_string_loop a js
             (Some (append_index (case str of None \<Rightarrow> [] | Some s \<Rightarrow> s) j))
             (snd (heap_alloc h)))"
  by (simp add: cpu_isset_def append_index_def Let_def split: prod.splits)

lemma cpu_set_to_string_loop_grants:
  assumes "heap_grants h"
  shows "\<exists>h'. cpu_set_to_string_loop a js str h =
           (Inr (if filter (cpu_isset a) js = [] then str
                 else Some (foldl append_index (case str of None \<Rightarrow> [] | Some s \<Rightarrow> s)
                              (filter (cpu_isset a) js))), h') \<and>
           heap_grants h'"
  using assms
proof (induction js arbitrary: str h)
  case Nil
  then show ?case by simp
next
  case (Cons j js)
  show ?case
  proof (cases "cpu_isset a j")
    case False
    then show ?thesis
      using Cons.IH [OF Cons.prems, of str]
      by (cases "filter (cpu_isset a) js = []")
         (simp_all add: cpu_set_to_string_loop_Cons del: cpu_set_to_string_loop.simps)
  next
    case True
    let ?s = "case str of None \<Rightarrow> [] | Some s \<Rightarrow> s"
    have al: "heap_alloc h = (True, tl h)" and g: "heap_grants (tl h)"
      using heap_grants_alloc [OF Cons.prems] by simp_all
    from Cons.IH [OF g, of "Some (append_index ?s j)"]
    obtain h' where res: "cpu_set_to_string_loop a js (Some (append_index ?s j)) (tl h) =
           (Inr (if filter (cpu_isset a) js = [] then Some (append_index ?s j)
                 else Some (foldl append_index (append_index ?s j) (filter (cpu_isset a) js))), h')"
      "heap_grants h'"
      by auto
    have "cpu_set_to_string_loop a (j # js) str h =
            cpu_set_to_string_loop a js (Some (append_index ?s j)) (tl h)"
      using True al by (simp add: cpu_set_to_string_loop_Cons del: cpu_set_to_string_loop.simps)
    then show ?thesis
      using res True by (auto simp del: cpu_set_to_string_loop.simps)
  qed
qed

lemma cpu_set_to_string_grants:
  assumes "heap_grants h"
  shows "\<exists>h'. cpu_set_to_string a h =
           (Some (render (filter (cpu_isset a) [0 ..< allocated a * 8])), h') \<and> heap_grants h'"
proof -
  let ?ms = "filter (cpu_isset a) [0 ..< allocated a * 8]"
  from cpu_set_to_string_loop_grants [OF assms, of a "[0 ..< allocated a * 8]" None]
  obtain h1 where res: "cpu_set_to_string_loop a [0 ..< allocated a * 8] None h =
      (Inr (if ?ms = [] then None else Some (foldl append_index [] ?ms)), h1)" "heap_grants h1"
    by auto
  show ?thesis
  proof (cases "?ms = []")
    case True
    then show ?thesis
      using res heap_grants_alloc [OF res(2)] by (simp add: cpu_set_to_string_def)
  next
    case False
    then show ?thesis
      using res by (simp add: cpu_set_to_string_def foldl_append_index_render)
  qed
qed

lemma members_sorted:
  "sorted_wrt (<) (filter (cpu_isset a) [0 ..< allocated a * 8]) \<and>
   set (filter (cpu_isset a) [0 ..< allocated a * 8]) = {i. cpu_isset a i}"
  using cpu_isset_bound [of a] by (auto intro: sorted_wrt_filter)

subsection \<open>Evaluation on concrete inputs\<close>

lemma parse_add_loop_numeral:
  "parse_add_loop c cpu_lower (numeral k) warn h lg =
     (if numeral k > cpu_lower then
        (case cpu_set_add c (pred_numeral k) h of
           (Inl e, c', h') \<Rightarrow>
             (Inl e, h',
              if warn then snd (log_syntax LOG_ERR (Some e) (Cannot_add (pred_numeral k)) lg) else lg)
         | (Inr _, c', h') \<Rightarrow> parse_add_loop c' cpu_lower (pred_numeral k) warn h' lg)
      else (Inr c, h, lg))"
  by (simp add: numeral_eq_Suc)

lemma replicate_numeral: "replicate (numeral k) x = x # replicate (pred_numeral k) x"
  by (simp add: numeral_eq_Suc)

lemma upt_0_numeral: "[0..<numeral k] = [0..<pred_numeral k] @ [pred_numeral k]"
  by (simp add: numeral_eq_Suc)

lemma char_of_digits:
  "char_of (48 :: nat) = CHR ''0''" "char_of (49 :: nat) = CHR ''1''"
  "char_of (50 :: nat) = CHR ''2''" "char_of (51 :: nat) = CHR ''3''"
  "char_of (52 :: nat) = CHR ''4''" "char_of (53 :: nat) = CHR ''5''"
  "char_of (54 :: nat) = CHR ''6''" "char_of (55 :: nat) = CHR ''7''"
  "char_of (56 :: nat) = CHR ''8''" "char_of (57 :: nat) = CHR ''9''"
  by (simp_all add: char_of_def bit_0 bit_Suc)

lemmas set_eval =
  cpu_set_add_def cpu_set_realloc_def CPU_ALLOC_SIZE_def CPU_SET_S_def CPU_ISSET_S_def
  bytes_of_def cpu_set_empty_def replicate_numeral

lemmas parse_eval =
  parse_cpu_set_full_def parse_cpu_set_loop.simps extract_first_word_def separator_def quote_char_def
  parse_range_def safe_atou_def digit_def parse_add_loop_numeral log_syntax_def log_oom_def

subsection \<open>Union semantics\<close>

lemma cpu_set_add_all_granted:
  assumes "wf_cpuset a" and "wf_cpuset b"
    and "\<forall>i. cpu_isset b i \<longrightarrow> i < 8192"
    and "fst (heap_alloc h)"
  shows "\<exists>a' h'. cpu_set_add_all a b h = (Inr (), a', h') \<and> wf_cpuset a' \<and>
           (\<forall>i. cpu_isset a' i \<longleftrightarrow> cpu_isset a i \<or> cpu_isset b i)"
proof -
  have n: "(allocated b * 8) mod 2 ^ 32 = allocated b * 8"
    using assms(2) by (simp add: wf_cpuset_def)
  have "\<forall>i<allocated b * 8. CPU_ISSET_S i (allocated b) (bytes_of b) \<longrightarrow> i < 8192"
    using assms(3) by (simp add: cpu_isset_def)
  from cpu_set_add_all_loop_union [OF assms(1) this, of h] assms(4)
  obtain a' h' where res: "cpu_set_add_all_loop a b (allocated b * 8) h = (Inr (), a', h')"
      "wf_cpuset a'"
      "\<And>i. cpu_isset a' i \<longleftrightarrow> cpu_isset a i \<or> (i < allocated b * 8 \<and> cpu_isset b i)"
    by blast
  have "\<And>i. cpu_isset a' i \<longleftrightarrow> cpu_isset a i \<or> cpu_isset b i"
    using res(3) cpu_isset_bound [of b] by blast
  then show ?thesis
    unfolding cpu_set_add_all_def n using res(1,2) by blast
qed


lemma built_members:
  assumes "cpu_set_add_list cpu_set_empty cpus [] = (Inr (), a, h')"
    and "\<forall>i\<in>set cpus. i < 8192"
  shows "\<forall>i. cpu_isset a i \<longleftrightarrow> i \<in> set cpus"
proof -
  have g: "heap_grants []" by (simp add: heap_grants_def)
  from cpu_set_add_list_built [OF wf_cpuset_empty assms(2) g] assms(1)
  show ?thesis by (simp add: cpu_isset_empty)
qed

lemma members_3:
  "\<forall>i. cpu_isset \<lparr>set_c = Some [8,0,0,0,0,0,0,0], allocated = 8\<rparr> i \<longleftrightarrow> i = 3"
proof -
  have "cpu_set_add_list cpu_set_empty [3] [] =
      (Inr (), \<lparr>set_c = Some [8,0,0,0,0,0,0,0], allocated = 8\<rparr>, [])"
    by (simp add: set_eval)
  from built_members [OF this] show ?thesis by simp
qed

lemma members_70:
  "\<forall>i. cpu_isset \<lparr>set_c = Some [0,0,0,0,0,0,0,0,64,0,0,0,0,0,0,0], allocated = 16\<rparr> i
        \<longleftrightarrow> i = 70"
proof -
  have "cpu_set_add_list cpu_set_empty [70] [] =
      (Inr (), \<lparr>set_c = Some [0,0,0,0,0,0,0,0,64,0,0,0,0,0,0,0], allocated = 16\<rparr>, [])"
    by (simp add: set_eval)
  from built_members [OF this] show ?thesis by simp
qed

text \<open>
  C2 (as amended). Union semantics: for every pair of sets \<open>A\<close> and \<open>B\<close> that satisfy the
  data-model invariant, the members of \<open>B\<close> all below 8192, \<^verbatim>\<open>cpu_set_add_all(A, B)\<close>
  succeeds provided the allocator grants the next request (the call makes at most
  one), and afterwards an index is a member of \<open>A\<close> if and only if it was a member of
  the original \<open>A\<close> or is a member of \<open>B\<close>. \<open>B\<close> is only read: the function returns
  nothing for it.
\<close>

theorem cpu_set_add_all_union:
  assumes "wf_cpuset a" and "wf_cpuset b"
    and "\<forall>i. cpu_isset b i \<longrightarrow> i < 8192"
    and "fst (heap_alloc h)"
  shows "\<exists>a' h'. cpu_set_add_all a b h = (Inr (), a', h') \<and> wf_cpuset a' \<and>
           (\<forall>i. cpu_isset a' i \<longleftrightarrow> cpu_isset a i \<or> cpu_isset b i)"
  using assms by (rule cpu_set_add_all_granted)

theorem cpu_set_add_all_union_witness:
  "wf_cpuset \<lparr>set_c = Some [6,0,0,0,0,0,0,0], allocated = 8\<rparr> \<and>
   wf_cpuset \<lparr>set_c = Some [8,0,0,0,0,0,0,0], allocated = 8\<rparr> \<and>
   (\<forall>i. cpu_isset \<lparr>set_c = Some [8,0,0,0,0,0,0,0], allocated = 8\<rparr> i \<longleftrightarrow> i = 3) \<and>
   fst (heap_alloc []) \<and>
   cpu_set_add_all \<lparr>set_c = Some [6,0,0,0,0,0,0,0], allocated = 8\<rparr>
     \<lparr>set_c = Some [8,0,0,0,0,0,0,0], allocated = 8\<rparr> [] =
     (Inr (), \<lparr>set_c = Some [14,0,0,0,0,0,0,0], allocated = 8\<rparr>, []) \<and>
   (\<forall>i. cpu_isset \<lparr>set_c = Some [14,0,0,0,0,0,0,0], allocated = 8\<rparr> i \<longleftrightarrow>
        cpu_isset \<lparr>set_c = Some [6,0,0,0,0,0,0,0], allocated = 8\<rparr> i \<or>
        cpu_isset \<lparr>set_c = Some [8,0,0,0,0,0,0,0], allocated = 8\<rparr> i)"
proof -
  let ?A = "\<lparr>set_c = Some [6,0,0,0,0,0,0,0], allocated = 8\<rparr>"
  let ?B = "\<lparr>set_c = Some [8,0,0,0,0,0,0,0], allocated = 8\<rparr>"
  have wa: "wf_cpuset ?A" and wb: "wf_cpuset ?B" by (simp_all add: wf_cpuset_def)
  have mb: "\<forall>i. cpu_isset ?B i \<longrightarrow> i < 8192"
    by (auto dest: cpu_isset_bound)
  have g: "fst (heap_alloc [])" by simp
  have run: "cpu_set_add_all ?A ?B [] =
     (Inr (), \<lparr>set_c = Some [14,0,0,0,0,0,0,0], allocated = 8\<rparr>, [])"
    by (simp add: cpu_set_add_all_def cpu_set_add_all_loop_numeral set_eval)
  from cpu_set_add_all_union [OF wa wb mb g] run
  have "\<forall>i. cpu_isset \<lparr>set_c = Some [14,0,0,0,0,0,0,0], allocated = 8\<rparr> i \<longleftrightarrow>
        cpu_isset ?A i \<or> cpu_isset ?B i"
    by simp
  then show ?thesis
    using wa wb members_3 g run by blast
qed

theorem cpu_set_add_all_union_counterexample:
  "wf_cpuset \<lparr>set_c = Some [2,0,0,0,0,0,0,0], allocated = 8\<rparr> \<and>
   wf_cpuset \<lparr>set_c = Some [0,0,0,0,0,0,0,0,64,0,0,0,0,0,0,0], allocated = 16\<rparr> \<and>
   (\<forall>i. cpu_isset \<lparr>set_c = Some [0,0,0,0,0,0,0,0,64,0,0,0,0,0,0,0], allocated = 16\<rparr> i
          \<longleftrightarrow> i = 70) \<and>
   cpu_set_add_all \<lparr>set_c = Some [2,0,0,0,0,0,0,0], allocated = 8\<rparr>
     \<lparr>set_c = Some [0,0,0,0,0,0,0,0,64,0,0,0,0,0,0,0], allocated = 16\<rparr> [False] =
     (Inl ENOMEM, \<lparr>set_c = Some [2,0,0,0,0,0,0,0], allocated = 8\<rparr>, [])"
proof -
  let ?B = "\<lparr>set_c = Some [0,0,0,0,0,0,0,0,64,0,0,0,0,0,0,0], allocated = 16\<rparr>"
  have mb: "\<forall>i. cpu_isset ?B i \<longrightarrow> i < 8192"
    by (auto dest: cpu_isset_bound)
  have run: "cpu_set_add_all \<lparr>set_c = Some [2,0,0,0,0,0,0,0], allocated = 8\<rparr> ?B [False] =
     (Inl ENOMEM, \<lparr>set_c = Some [2,0,0,0,0,0,0,0], allocated = 8\<rparr>, [])"
    by (simp add: cpu_set_add_all_def cpu_set_add_all_loop_numeral set_eval)
  show ?thesis
    using members_70 run by (simp add: wf_cpuset_def)
qed

subsection \<open>Round trip\<close>

text \<open>
  C1 (as amended). Round-trip, provided every allocation request is granted: for the
  set built by adding any finite list of indices below 8192, \<^verbatim>\<open>cpu_set_to_string\<close>
  renders exactly those indices, in strictly ascending order and so without
  duplicates, as decimals separated by single spaces (the empty string for no index),
  and \<^verbatim>\<open>parse_cpu_set_full\<close> on that text, in either mode, succeeds without a diagnostic
  and returns a set with exactly the same membership.
\<close>

theorem cpu_set_roundtrip:
  assumes "\<forall>i\<in>set cpus. i < 8192" and "heap_grants h"
  shows "\<exists>s h1 js h2 s' h3.
           cpu_set_add_list cpu_set_empty cpus h = (Inr (), s, h1) \<and>
           (\<forall>i. cpu_isset s i \<longleftrightarrow> i \<in> set cpus) \<and>
           cpu_set_to_string s h1 = (Some (render js), h2) \<and>
           sorted_wrt (<) js \<and> set js = set cpus \<and>
           parse_cpu_set_full (render js) warn h2 = (Inr s', h3, []) \<and>
           (\<forall>i. cpu_isset s' i \<longleftrightarrow> cpu_isset s i)"
proof -
  from cpu_set_add_list_built [OF wf_cpuset_empty assms]
  obtain s h1 where built: "cpu_set_add_list cpu_set_empty cpus h = (Inr (), s, h1)"
    "wf_cpuset s" "heap_grants h1" "\<And>i. cpu_isset s i \<longleftrightarrow> i \<in> set cpus"
    by (auto simp: cpu_isset_empty)
  let ?js = "filter (cpu_isset s) [0 ..< allocated s * 8]"
  from cpu_set_to_string_grants [OF built(3), of s]
  obtain h2 where str: "cpu_set_to_string s h1 = (Some (render ?js), h2)" "heap_grants h2"
    by auto
  have js: "sorted_wrt (<) ?js" "set ?js = set cpus"
    using members_sorted [of s] built(4) by auto
  then have "\<forall>i\<in>set ?js. i < 8192" using assms(1) by simp
  from parse_cpu_set_loop_render [OF wf_cpuset_empty this str(2), of warn "[]"]
  obtain s' h3 where parsed: "parse_cpu_set_full (render ?js) warn h2 = (Inr s', h3, [])"
    "\<And>i. cpu_isset s' i \<longleftrightarrow> i \<in> set ?js"
    by (auto simp: parse_cpu_set_full_def cpu_isset_empty)
  have "\<And>i. cpu_isset s' i \<longleftrightarrow> cpu_isset s i"
    unfolding parsed(2) js(2) built(4) ..
  then show ?thesis
    using built(1,4) str(1) js parsed(1) by blast
qed

theorem cpu_set_roundtrip_witness:
  "list_all (\<lambda>i. i < 8192) [5, 2, 5 :: nat] \<and> heap_grants [] \<and>
   cpu_set_add_list cpu_set_empty [5, 2, 5] [] =
     (Inr (), \<lparr>set_c = Some [36,0,0,0,0,0,0,0], allocated = 8\<rparr>, []) \<and>
   cpu_set_to_string \<lparr>set_c = Some [36,0,0,0,0,0,0,0], allocated = 8\<rparr> [] = (Some ''2 5'', []) \<and>
   parse_cpu_set_full ''2 5'' False [] =
     (Inr \<lparr>set_c = Some [36,0,0,0,0,0,0,0], allocated = 8\<rparr>, [], []) \<and>
   (\<exists>s h1 js h2 s' h3.
           cpu_set_add_list cpu_set_empty [5, 2, 5] [] = (Inr (), s, h1) \<and>
           (\<forall>i. cpu_isset s i \<longleftrightarrow> i \<in> set [5, 2, 5]) \<and>
           cpu_set_to_string s h1 = (Some (render js), h2) \<and>
           sorted_wrt (<) js \<and> set js = set [5, 2, 5] \<and>
           parse_cpu_set_full (render js) False h2 = (Inr s', h3, []) \<and>
           (\<forall>i. cpu_isset s' i \<longleftrightarrow> cpu_isset s i))"
proof -
  have a: "\<forall>i\<in>set [5, 2, 5]. i < (8192 :: nat)" by simp
  have g: "heap_grants []" by (simp add: heap_grants_def)
  have e0: "cpu_set_add_list cpu_set_empty [5, 2, 5] [] =
     (Inr (), \<lparr>set_c = Some [36,0,0,0,0,0,0,0], allocated = 8\<rparr>, [])"
    by (simp add: set_eval)
  have e1: "cpu_set_to_string \<lparr>set_c = Some [36,0,0,0,0,0,0,0], allocated = 8\<rparr> [] = (Some ''2 5'', [])"
    by (simp add: cpu_set_to_string_def set_eval decimal.simps upt_0_numeral char_of_digits)
  have e2: "parse_cpu_set_full ''2 5'' False [] =
     (Inr \<lparr>set_c = Some [36,0,0,0,0,0,0,0], allocated = 8\<rparr>, [], [])"
    by (simp add: parse_eval set_eval)
  have l: "list_all (\<lambda>i. i < 8192) [5, 2, 5 :: nat]" by simp
  show ?thesis
    by (intro conjI l g e0 e1 e2 cpu_set_roundtrip [OF a g])
qed

theorem cpu_set_roundtrip_counterexample:
  "cpu_set_add_list cpu_set_empty [3] [] =
     (Inr (), \<lparr>set_c = Some [8,0,0,0,0,0,0,0], allocated = 8\<rparr>, []) \<and>
   cpu_set_to_string \<lparr>set_c = Some [8,0,0,0,0,0,0,0], allocated = 8\<rparr> [] = (Some ''3'', []) \<and>
   parse_cpu_set_full ''3'' False [True, False] = (Inl ENOMEM, [], [])"
  by (simp add: cpu_set_to_string_def parse_eval set_eval decimal.simps upt_0_numeral char_of_digits)

subsection \<open>The inverted-range sentinel\<close>

lemma extract_first_word_delimiters:
  "list_all separator p \<Longrightarrow> extract_first_word p h = (Inr None, h)"
  by (simp add: extract_first_word_def dropWhile_all)

lemma parse_cpu_set_full_delimiters:
  "list_all separator p \<Longrightarrow> parse_cpu_set_full p warn h = (Inr cpu_set_empty, h, [])"
  unfolding parse_cpu_set_full_def
  by (subst parse_cpu_set_loop.simps) (simp add: extract_first_word_delimiters)

lemma cpu_isset_zeros: "\<not> cpu_isset \<lparr>set_c = Some (replicate n 0), allocated = n\<rparr> i"
  by (simp add: cpu_isset_def CPU_ISSET_S_def bytes_of_def)

lemma cpu_set_to_string_no_member:
  assumes "heap_grants g" and "\<forall>i. \<not> cpu_isset a i"
  shows "fst (cpu_set_to_string a g) = Some []"
proof -
  have "filter (cpu_isset a) [0 ..< allocated a * 8] = []"
    using assms(2) by simp
  with cpu_set_to_string_grants [OF assms(1), of a] show ?thesis by auto
qed

text \<open>
  C5 (as amended). Inverted-range sentinel, provided the allocation requests are
  granted: parsing \<^verbatim>\<open>"9-3"\<close> in lenient mode succeeds, behind the warning that the range
  is ignored, and returns a set that owns backing storage (eight zero bytes) but has
  no member and renders as the empty string; parsing an empty or delimiter-only
  string succeeds, whatever the allocator does, and returns a set that owns no backing
  storage, has no member and renders as the empty string. The two results differ in
  whether storage is owned, not in membership or rendered text.
\<close>

theorem parse_inverted_range_sentinel:
  assumes "heap_grants h" and "heap_grants g" and "list_all separator p"
  shows "parse_cpu_set_full ''9-3'' True h =
           (Inr \<lparr>set_c = Some (replicate 8 0), allocated = 8\<rparr>, tl (tl h),
            [Diagnostic LOG_WARNING None (Range_invalid ''9-3'' 9 3)]) \<and>
         (\<forall>i. \<not> cpu_isset \<lparr>set_c = Some (replicate 8 0), allocated = 8\<rparr> i) \<and>
         fst (cpu_set_to_string \<lparr>set_c = Some (replicate 8 0), allocated = 8\<rparr> g) = Some [] \<and>
         parse_cpu_set_full p True h = (Inr cpu_set_empty, h, []) \<and>
         set_c cpu_set_empty = None \<and>
         (\<forall>i. \<not> cpu_isset cpu_set_empty i) \<and>
         fst (cpu_set_to_string cpu_set_empty g) = Some []"
proof -
  have al: "heap_alloc h = (True, tl h)" "heap_alloc (tl h) = (True, tl (tl h))"
    using heap_grants_alloc [OF assms(1)] heap_grants_alloc [of "tl h"] by simp_all
  have parse: "parse_cpu_set_full ''9-3'' True h =
           (Inr \<lparr>set_c = Some (replicate 8 0), allocated = 8\<rparr>, tl (tl h),
            [Diagnostic LOG_WARNING None (Range_invalid ''9-3'' 9 3)])"
    by (simp add: parse_eval set_eval al)
  have none: "\<forall>i. \<not> cpu_isset \<lparr>set_c = Some (replicate 8 0), allocated = 8\<rparr> i"
    by (simp add: cpu_isset_zeros)
  have none': "\<forall>i. \<not> cpu_isset cpu_set_empty i"
    by (simp add: cpu_isset_empty)
  show ?thesis
    using parse none none' cpu_set_to_string_no_member [OF assms(2) none]
      cpu_set_to_string_no_member [OF assms(2) none']
      parse_cpu_set_full_delimiters [OF assms(3), of True h]
    by (simp add: cpu_set_empty_def)
qed

theorem parse_inverted_range_sentinel_witness:
  "heap_grants [] \<and> list_all separator '' , '' \<and>
   parse_cpu_set_full ''9-3'' True [] =
     (Inr \<lparr>set_c = Some [0,0,0,0,0,0,0,0], allocated = 8\<rparr>, [],
      [Diagnostic LOG_WARNING None (Range_invalid ''9-3'' 9 3)]) \<and>
   fst (cpu_set_to_string \<lparr>set_c = Some [0,0,0,0,0,0,0,0], allocated = 8\<rparr> []) = Some [] \<and>
   parse_cpu_set_full '' , '' True [] = (Inr \<lparr>set_c = None, allocated = 0\<rparr>, [], []) \<and>
   fst (cpu_set_to_string \<lparr>set_c = None, allocated = 0\<rparr> []) = Some []"
proof -
  have g: "heap_grants []" by (simp add: heap_grants_def)
  have d: "list_all separator '' , ''" by (simp add: separator_def)
  from parse_inverted_range_sentinel [OF g g d] g d show ?thesis
    by (simp add: cpu_set_empty_def replicate_numeral)
qed

theorem parse_inverted_range_sentinel_counterexample:
  "parse_cpu_set_full ''9-3'' True [True, False] =
     (Inl ENOMEM, [], [Diagnostic LOG_WARNING None (Range_invalid ''9-3'' 9 3)])"
  by (simp add: parse_eval set_eval)

subsection \<open>Extending with the sentinel\<close>

lemma cpu_set_add_all_loop_no_member:
  "(\<forall>i<n. \<not> CPU_ISSET_S i (allocated b) (bytes_of b)) \<Longrightarrow>
   cpu_set_add_all_loop a b n h = (Inr (), a, h)"
  by (induction n) simp_all

lemma cpu_set_add_all_no_member:
  "(\<forall>i. \<not> cpu_isset b i) \<Longrightarrow> cpu_set_add_all a b h = (Inr (), a, h)"
  unfolding cpu_set_add_all_def
  by (rule cpu_set_add_all_loop_no_member) (simp add: cpu_isset_def)

lemma cpu_set_add_owned:
  "cpu_set_add a cpu h = (r, a', h') \<Longrightarrow> set_c a \<noteq> None \<Longrightarrow> set_c a' \<noteq> None"
  by (drule cpu_set_add_cases) (auto dest!: cpu_set_realloc_cases)

lemma cpu_set_add_all_loop_owned:
  "cpu_set_add_all_loop a b n h = (r, a', h') \<Longrightarrow> set_c a \<noteq> None \<Longrightarrow> set_c a' \<noteq> None"
proof (induction n arbitrary: a h)
  case 0
  then show ?case by simp
next
  case (Suc cpu)
  show ?case
  proof (cases "CPU_ISSET_S cpu (allocated b) (bytes_of b)")
    case False
    then show ?thesis using Suc by simp
  next
    case True
    obtain r1 a1 h1 where ad: "cpu_set_add a cpu h = (r1, a1, h1)"
      by (cases "cpu_set_add a cpu h") auto
    have o1: "set_c a1 \<noteq> None" by (rule cpu_set_add_owned [OF ad Suc.prems(2)])
    show ?thesis
    proof (cases r1)
      case (Inl e)
      then show ?thesis using Suc.prems(1) True ad o1 by simp
    next
      case (Inr u)
      then show ?thesis using Suc.prems(1) True ad Suc.IH [OF _ o1] by simp
    qed
  qed
qed

lemma wf_member_owned: "wf_cpuset a \<Longrightarrow> cpu_isset a i \<Longrightarrow> set_c a \<noteq> None"
  by (cases "set_c a") (auto simp: wf_cpuset_def cpu_isset_def CPU_ISSET_S_def)

text \<open>
  C10. The sentinel never resets: for every non-empty old set, when the text parses
  (in warn mode, as \<^verbatim>\<open>parse_cpu_set_extend\<close> always parses) to a set that owns storage
  and has no bit set, \<^verbatim>\<open>parse_cpu_set_extend\<close> returns success and leaves \<open>old\<close> exactly
  as it was, membership and buffer. Only a parsed set that owns no storage resets
  \<open>old\<close> to the empty state; after any other parsed set \<open>old\<close> still owns storage.
\<close>

theorem parse_cpu_set_extend_sentinel:
  assumes "wf_cpuset old" and "\<exists>i. cpu_isset old i"
    and "parse_cpu_set_full rvalue True h = (Inr t, h1, lg)"
  shows "(set_c t \<noteq> None \<and> (\<forall>i. \<not> cpu_isset t i) \<longrightarrow>
            parse_cpu_set_extend rvalue old warn h = (Inr (), old, h1, lg)) \<and>
         (set_c t = None \<longrightarrow>
            parse_cpu_set_extend rvalue old warn h = (Inr (), cpu_set_empty, h1, lg)) \<and>
         (set_c t \<noteq> None \<longrightarrow>
            set_c (fst (snd (parse_cpu_set_extend rvalue old warn h))) \<noteq> None)"
proof -
  have owned: "set_c old \<noteq> None"
    using assms(1,2) by (auto dest: wf_member_owned)
  have "set_c (fst (snd (cpu_set_add_all old t h1))) \<noteq> None"
    using cpu_set_add_all_loop_owned [OF _ owned, of t _ h1] unfolding cpu_set_add_all_def
    by (cases "cpu_set_add_all_loop old t (allocated t * 8 mod 2 ^ 32) h1") auto
  then show ?thesis
    using owned assms(3)
    by (auto simp: parse_cpu_set_extend_def cpu_set_reset_def cpu_set_add_all_no_member
             split: prod.splits)
qed

theorem parse_cpu_set_extend_sentinel_witness:
  "wf_cpuset \<lparr>set_c = Some [6,0,0,0,0,0,0,0], allocated = 8\<rparr> \<and>
   cpu_isset \<lparr>set_c = Some [6,0,0,0,0,0,0,0], allocated = 8\<rparr> 1 \<and>
   parse_cpu_set_full ''9-3'' True [] =
     (Inr \<lparr>set_c = Some [0,0,0,0,0,0,0,0], allocated = 8\<rparr>, [],
      [Diagnostic LOG_WARNING None (Range_invalid ''9-3'' 9 3)]) \<and>
   parse_cpu_set_extend ''9-3'' \<lparr>set_c = Some [6,0,0,0,0,0,0,0], allocated = 8\<rparr> False [] =
     (Inr (), \<lparr>set_c = Some [6,0,0,0,0,0,0,0], allocated = 8\<rparr>, [],
      [Diagnostic LOG_WARNING None (Range_invalid ''9-3'' 9 3)])"
proof -
  let ?old = "\<lparr>set_c = Some [6,0,0,0,0,0,0,0], allocated = 8\<rparr>"
  let ?t = "\<lparr>set_c = Some [0,0,0,0,0,0,0,0], allocated = 8\<rparr>"
  have w: "wf_cpuset ?old" by (simp add: wf_cpuset_def)
  have m: "cpu_isset ?old 1" by (simp add: cpu_isset_def set_eval)
  then have m': "\<exists>i. cpu_isset ?old i" ..
  have p: "parse_cpu_set_full ''9-3'' True [] =
     (Inr ?t, [], [Diagnostic LOG_WARNING None (Range_invalid ''9-3'' 9 3)])"
    by (simp add: parse_eval set_eval)
  have z: "\<forall>i. \<not> cpu_isset ?t i"
    using cpu_isset_zeros [of 8] by (simp add: replicate_numeral)
  from parse_cpu_set_extend_sentinel [OF w m' p, of False] z w m p
  show ?thesis by simp
qed

subsection \<open>Extend and merge\<close>

lemma parse_add_loop_wf:
  "parse_add_loop c cpu_lower n warn h lg = (Inr c', h', lg') \<Longrightarrow> wf_cpuset c \<Longrightarrow> wf_cpuset c'"
proof (induction n arbitrary: c h)
  case 0
  then show ?case by simp
next
  case (Suc cpu)
  show ?case
  proof (cases "Suc cpu > cpu_lower")
    case False
    then show ?thesis using Suc.prems by simp
  next
    case True
    obtain r c1 h1 where ad: "cpu_set_add c cpu h = (r, c1, h1)"
      by (cases "cpu_set_add c cpu h") auto
    have wf1: "wf_cpuset c1" by (rule cpu_set_add_wf [OF Suc.prems(2) ad])
    show ?thesis
    proof (cases r)
      case (Inl e)
      then show ?thesis using Suc.prems(1) True ad by simp
    next
      case (Inr u)
      then show ?thesis using Suc.prems(1) True ad Suc.IH [OF _ wf1] by simp
    qed
  qed
qed

lemma cpu_set_add_all_loop_success:
  "cpu_set_add_all_loop a b n h = (Inr u, a', h') \<Longrightarrow> wf_cpuset a \<Longrightarrow>
   wf_cpuset a' \<and> (\<forall>i. cpu_isset a' i \<longleftrightarrow> cpu_isset a i \<or> (i < n \<and> cpu_isset b i))"
proof (induction n arbitrary: a h)
  case 0
  then show ?case by simp
next
  case (Suc cpu)
  show ?case
  proof (cases "cpu_isset b cpu")
    case False
    then have "cpu_set_add_all_loop a b cpu h = (Inr u, a', h')"
      using Suc.prems(1) by (simp add: cpu_isset_def)
    from Suc.IH [OF this Suc.prems(2)] False show ?thesis
      by (auto simp: less_Suc_eq)
  next
    case True
    obtain r a1 h1 where ad: "cpu_set_add a cpu h = (r, a1, h1)"
      by (cases "cpu_set_add a cpu h") auto
    have wf1: "wf_cpuset a1" by (rule cpu_set_add_wf [OF Suc.prems(2) ad])
    show ?thesis
    proof (cases r)
      case (Inl e)
      then show ?thesis using Suc.prems(1) True ad by (simp add: cpu_isset_def)
    next
      case (Inr v)
      then have "cpu_set_add_all_loop a1 b cpu h1 = (Inr u, a', h')"
        using Suc.prems(1) True ad by (simp add: cpu_isset_def)
      from Suc.IH [OF this wf1]
      have res: "wf_cpuset a'" "\<And>i. cpu_isset a' i \<longleftrightarrow> cpu_isset a1 i \<or> (i < cpu \<and> cpu_isset b i)"
        by auto
      have "\<And>i. cpu_isset a1 i \<longleftrightarrow> cpu_isset a i \<or> i = cpu"
        using cpu_set_add_isset [OF Suc.prems(2)] ad Inr by simp
      then show ?thesis
        using res True by (auto simp: less_Suc_eq)
    qed
  qed
qed

lemma cpu_set_add_all_success:
  assumes "cpu_set_add_all a b h = (Inr u, a', h')" and "wf_cpuset a" and "wf_cpuset b"
  shows "wf_cpuset a' \<and> (\<forall>i. cpu_isset a' i \<longleftrightarrow> cpu_isset a i \<or> cpu_isset b i)"
proof -
  have n: "(allocated b * 8) mod 2 ^ 32 = allocated b * 8"
    using assms(3) by (simp add: wf_cpuset_def)
  from assms(1) have "cpu_set_add_all_loop a b (allocated b * 8) h = (Inr u, a', h')"
    unfolding cpu_set_add_all_def n .
  from cpu_set_add_all_loop_success [OF this assms(2)] cpu_isset_bound [of b]
  show ?thesis by blast
qed

lemma parse_cpu_set_loop_wf:
  "parse_cpu_set_loop p c warn h lg = (Inr c', h', lg') \<Longrightarrow> wf_cpuset c \<Longrightarrow> wf_cpuset c'"
proof (induction "length p" arbitrary: p c h lg rule: less_induct)
  case less
  obtain x h1 where ex: "extract_first_word p h = (x, h1)"
    by (cases "extract_first_word p h") auto
  show ?case
  proof (cases x)
    case (Inl e)
    then show ?thesis
      using less.prems(1) ex by (subst (asm) parse_cpu_set_loop.simps) (simp split: if_splits)
  next
    case (Inr y)
    show ?thesis
    proof (cases y)
      case None
      then show ?thesis
        using less.prems ex Inr by (subst (asm) parse_cpu_set_loop.simps) simp
    next
      case (Some wp)
      obtain word p' where wp: "wp = (word, p')" by (cases wp) auto
      have shorter: "length p' < length p"
        using extract_first_word_length [of p h word p' h1] ex Inr Some wp by simp
      obtain cpu_lower cpu_upper where pr: "parse_range word = Inr (cpu_lower, cpu_upper)"
        using less.prems(1) ex Inr Some wp
        by (subst (asm) parse_cpu_set_loop.simps) (auto split: sum.splits)
      let ?lg1 = "if cpu_lower > cpu_upper \<and> warn
                  then snd (log_syntax LOG_WARNING None (Range_invalid word cpu_lower cpu_upper) lg)
                  else lg"
      obtain r c1 h2 where re:
        "(if cpu_lower > cpu_upper then cpu_set_realloc c 1 h1 else (Inr (), c, h1)) = (r, c1, h2)"
        by (cases "if cpu_lower > cpu_upper then cpu_set_realloc c 1 h1 else (Inr (), c, h1)") auto
      have wf1: "wf_cpuset c1"
        using re less.prems(2) cpu_set_realloc_wf [of c 1 h1 r c1 h2]
        by (auto split: if_splits)
      obtain q h3 lg2 where pa:
        "parse_add_loop c1 cpu_lower (min cpu_upper (2 ^ 32 - 2) + 1) warn h2 ?lg1 = (q, h3, lg2)"
        by (cases "parse_add_loop c1 cpu_lower (min cpu_upper (2 ^ 32 - 2) + 1) warn h2 ?lg1") auto
      have unfolded: "(case r of Inl e \<Rightarrow> (Inl e, h2, ?lg1)
                | Inr _ \<Rightarrow> (case q of Inl e \<Rightarrow> (Inl e, h3, lg2)
                                     | Inr c2 \<Rightarrow> parse_cpu_set_loop p' c2 warn h3 lg2))
               = (Inr c', h', lg')"
        using less.prems(1)
        by (subst (asm) parse_cpu_set_loop.simps)
           (simp only: ex Inr Some wp pr re pa prod.case sum.case option.case Let_def)
      then obtain c2 where q: "q = Inr c2" and
        rec: "parse_cpu_set_loop p' c2 warn h3 lg2 = (Inr c', h', lg')"
        by (cases r; cases q) simp_all
      have wf2: "wf_cpuset c2"
        using parse_add_loop_wf [OF pa [unfolded q] wf1] .
      show ?thesis
        by (rule less.hyps [OF shorter rec wf2])
    qed
  qed
qed

lemma parse_cpu_set_full_wf:
  "parse_cpu_set_full rvalue warn h = (Inr t, h', lg) \<Longrightarrow> wf_cpuset t"
  unfolding parse_cpu_set_full_def
  by (erule parse_cpu_set_loop_wf) (rule wf_cpuset_empty)

lemma decimal_3: "decimal 3 = ''3''"
  by (simp add: decimal.simps char_of_digits)

lemma parse_cpu_set_full_3:
  assumes "heap_grants h"
  shows "\<exists>t h1. parse_cpu_set_full ''3'' warn h = (Inr t, h1, []) \<and> wf_cpuset t \<and>
           heap_grants h1 \<and> (\<forall>i. cpu_isset t i \<longleftrightarrow> i = 3)"
proof -
  have "\<forall>i\<in>set [3 :: nat]. i < 8192" by simp
  from parse_cpu_set_loop_render [OF wf_cpuset_empty this assms, of warn "[]"]
  show ?thesis
    by (auto simp: parse_cpu_set_full_def decimal_3 cpu_isset_empty)
qed

text \<open>
  C6 (as amended). Extend case analysis, for every old set that satisfies the
  data-model invariant and every text: \<^verbatim>\<open>parse_cpu_set_extend\<close> first parses the text in
  warn mode, and a parse error is returned with \<open>old\<close> untouched. If the temporary set
  owns no storage, \<open>old\<close> is reset to the fully empty state and success is returned;
  else if \<open>old\<close> owns no storage, the temporary set itself becomes \<open>old\<close>; else the
  temporary set is unioned into \<open>old\<close> by \<^verbatim>\<open>cpu_set_add_all\<close>, all or nothing: on
  failure \<open>old\<close> is unchanged, on success its membership is the union. So \<open>old\<close> with
  membership \<open>{1, 2}\<close> extended with \<^verbatim>\<open>"3"\<close> ends with membership \<open>{1, 2, 3}\<close>, provided
  the allocation requests are granted, and \<open>old\<close> extended with the empty text ends
  fully empty.
\<close>

theorem parse_cpu_set_extend_cases:
  assumes "wf_cpuset old"
  shows
    "(\<forall>e h1 lg. parse_cpu_set_full rvalue True h = (Inl e, h1, lg) \<longrightarrow>
        parse_cpu_set_extend rvalue old warn h = (Inl e, old, h1, lg)) \<and>
     (\<forall>t h1 lg. parse_cpu_set_full rvalue True h = (Inr t, h1, lg) \<longrightarrow>
        (set_c t = None \<longrightarrow>
           parse_cpu_set_extend rvalue old warn h = (Inr (), cpu_set_empty, h1, lg)) \<and>
        (set_c t \<noteq> None \<and> set_c old = None \<longrightarrow>
           parse_cpu_set_extend rvalue old warn h = (Inr (), t, h1, lg)) \<and>
        (set_c t \<noteq> None \<and> set_c old \<noteq> None \<longrightarrow>
           (\<exists>r old' h2. cpu_set_add_all old t h1 = (r, old', h2) \<and>
              parse_cpu_set_extend rvalue old warn h = (r, old', h2, lg) \<and>
              (case r of Inl e \<Rightarrow> old' = old
               | Inr u \<Rightarrow> \<forall>i. cpu_isset old' i \<longleftrightarrow> cpu_isset old i \<or> cpu_isset t i)))) \<and>
     ((\<forall>i. cpu_isset old i \<longleftrightarrow> i = 1 \<or> i = 2) \<and> heap_grants h \<longrightarrow>
        (\<exists>old' h' lg. parse_cpu_set_extend ''3'' old warn h = (Inr (), old', h', lg) \<and>
           (\<forall>i. cpu_isset old' i \<longleftrightarrow> i = 1 \<or> i = 2 \<or> i = 3))) \<and>
     parse_cpu_set_extend [] old warn h = (Inr (), cpu_set_empty, h, [])"
proof (intro conjI allI impI)
  fix e h1 lg
  assume "parse_cpu_set_full rvalue True h = (Inl e, h1, lg)"
  then show "parse_cpu_set_extend rvalue old warn h = (Inl e, old, h1, lg)"
    by (simp add: parse_cpu_set_extend_def)
next
  fix t h1 lg
  assume "parse_cpu_set_full rvalue True h = (Inr t, h1, lg)" and "set_c t = None"
  then show "parse_cpu_set_extend rvalue old warn h = (Inr (), cpu_set_empty, h1, lg)"
    by (simp add: parse_cpu_set_extend_def cpu_set_reset_def)
next
  fix t h1 lg
  assume "parse_cpu_set_full rvalue True h = (Inr t, h1, lg)"
    and "set_c t \<noteq> None \<and> set_c old = None"
  then show "parse_cpu_set_extend rvalue old warn h = (Inr (), t, h1, lg)"
    by (auto simp: parse_cpu_set_extend_def)
next
  fix t h1 lg
  assume p: "parse_cpu_set_full rvalue True h = (Inr t, h1, lg)"
    and o: "set_c t \<noteq> None \<and> set_c old \<noteq> None"
  obtain r old' h2 where u: "cpu_set_add_all old t h1 = (r, old', h2)"
    by (cases "cpu_set_add_all old t h1") auto
  have ext: "parse_cpu_set_extend rvalue old warn h = (r, old', h2, lg)"
    using p o u by (auto simp: parse_cpu_set_extend_def)
  have wft: "wf_cpuset t" by (rule parse_cpu_set_full_wf [OF p])
  have "case r of Inl e \<Rightarrow> old' = old
        | Inr u \<Rightarrow> \<forall>i. cpu_isset old' i \<longleftrightarrow> cpu_isset old i \<or> cpu_isset t i"
  proof (cases r)
    case (Inl e)
    then show ?thesis using cpu_set_add_all_loop_failure [of old t _ h1 e old' h2] u
      by (simp add: cpu_set_add_all_def)
  next
    case (Inr v)
    then show ?thesis using cpu_set_add_all_success [of old t h1 v old' h2] u assms wft
      by simp
  qed
  then show "\<exists>r old' h2. cpu_set_add_all old t h1 = (r, old', h2) \<and>
              parse_cpu_set_extend rvalue old warn h = (r, old', h2, lg) \<and>
              (case r of Inl e \<Rightarrow> old' = old
               | Inr u \<Rightarrow> \<forall>i. cpu_isset old' i \<longleftrightarrow> cpu_isset old i \<or> cpu_isset t i)"
    using u ext by blast
next
  assume a: "(\<forall>i. cpu_isset old i \<longleftrightarrow> i = 1 \<or> i = 2) \<and> heap_grants h"
  from parse_cpu_set_full_3 [of h True] a
  obtain t h1 where p: "parse_cpu_set_full ''3'' True h = (Inr t, h1, [])" "wf_cpuset t"
    "heap_grants h1" "\<And>i. cpu_isset t i \<longleftrightarrow> i = 3"
    by blast
  have ot: "set_c t \<noteq> None" using wf_member_owned [OF p(2), of 3] p(4) by simp
  have oo: "set_c old \<noteq> None" using wf_member_owned [OF assms, of 1] a by simp
  have "\<forall>i. cpu_isset t i \<longrightarrow> i < 8192" using p(4) by simp
  from cpu_set_add_all_granted [OF assms p(2) this heap_grants_fst [OF p(3)]]
  obtain old' h2 where u: "cpu_set_add_all old t h1 = (Inr (), old', h2)"
    "\<And>i. cpu_isset old' i \<longleftrightarrow> cpu_isset old i \<or> cpu_isset t i"
    by blast
  have "parse_cpu_set_extend ''3'' old warn h = (Inr (), old', h2, [])"
    using p(1) ot oo u(1) by (auto simp: parse_cpu_set_extend_def)
  moreover have "\<forall>i. cpu_isset old' i \<longleftrightarrow> i = 1 \<or> i = 2 \<or> i = 3"
    using u(2) p(4) a by auto
  ultimately show "\<exists>old' h' lg. parse_cpu_set_extend ''3'' old warn h = (Inr (), old', h', lg) \<and>
           (\<forall>i. cpu_isset old' i \<longleftrightarrow> i = 1 \<or> i = 2 \<or> i = 3)"
    by blast
next
  show "parse_cpu_set_extend [] old warn h = (Inr (), cpu_set_empty, h, [])"
    by (simp add: parse_cpu_set_extend_def parse_cpu_set_full_delimiters cpu_set_reset_def
          cpu_set_empty_def)
qed

lemma members_1_2:
  "\<forall>i. cpu_isset \<lparr>set_c = Some [6,0,0,0,0,0,0,0], allocated = 8\<rparr> i \<longleftrightarrow> i = 1 \<or> i = 2"
proof -
  have g: "heap_grants []" by (simp add: heap_grants_def)
  have "\<forall>i\<in>set [1, 2 :: nat]. i < 8192" by simp
  from cpu_set_add_list_built [OF wf_cpuset_empty this g]
  have "\<exists>a' h'. cpu_set_add_list cpu_set_empty [1, 2] [] = (Inr (), a', h') \<and>
          (\<forall>i. cpu_isset a' i \<longleftrightarrow> i = 1 \<or> i = 2)"
    by (auto simp: cpu_isset_empty)
  moreover have "cpu_set_add_list cpu_set_empty [1, 2] [] =
      (Inr (), \<lparr>set_c = Some [6,0,0,0,0,0,0,0], allocated = 8\<rparr>, [])"
    by (simp add: set_eval)
  ultimately show ?thesis by simp
qed

theorem parse_cpu_set_extend_cases_witness:
  "wf_cpuset \<lparr>set_c = Some [6,0,0,0,0,0,0,0], allocated = 8\<rparr> \<and>
   (\<forall>i. cpu_isset \<lparr>set_c = Some [6,0,0,0,0,0,0,0], allocated = 8\<rparr> i \<longleftrightarrow> i = 1 \<or> i = 2) \<and>
   heap_grants [] \<and>
   parse_cpu_set_extend ''x'' \<lparr>set_c = Some [6,0,0,0,0,0,0,0], allocated = 8\<rparr> False [] =
     (Inl EINVAL, \<lparr>set_c = Some [6,0,0,0,0,0,0,0], allocated = 8\<rparr>, [],
      [Diagnostic LOG_ERR (Some EINVAL) (Failed_to_parse ''x'')]) \<and>
   parse_cpu_set_extend ''3'' cpu_set_empty False [] =
     (Inr (), \<lparr>set_c = Some [8,0,0,0,0,0,0,0], allocated = 8\<rparr>, [], []) \<and>
   parse_cpu_set_extend ''3'' \<lparr>set_c = Some [6,0,0,0,0,0,0,0], allocated = 8\<rparr> False [] =
     (Inr (), \<lparr>set_c = Some [14,0,0,0,0,0,0,0], allocated = 8\<rparr>, [], []) \<and>
   (\<forall>i. cpu_isset \<lparr>set_c = Some [14,0,0,0,0,0,0,0], allocated = 8\<rparr> i \<longleftrightarrow> i = 1 \<or> i = 2 \<or> i = 3) \<and>
   parse_cpu_set_extend [] \<lparr>set_c = Some [6,0,0,0,0,0,0,0], allocated = 8\<rparr> False [] =
     (Inr (), cpu_set_empty, [], [])"
proof -
  let ?old = "\<lparr>set_c = Some [6,0,0,0,0,0,0,0], allocated = 8\<rparr>"
  let ?t = "\<lparr>set_c = Some [8,0,0,0,0,0,0,0], allocated = 8\<rparr>"
  have w: "wf_cpuset ?old" by (simp add: wf_cpuset_def)
  have g: "heap_grants []" by (simp add: heap_grants_def)
  have px: "parse_cpu_set_full ''x'' True [] =
      (Inl EINVAL, [], [Diagnostic LOG_ERR (Some EINVAL) (Failed_to_parse ''x'')])"
    by (simp add: parse_eval set_eval)
  have p3: "parse_cpu_set_full ''3'' True [] = (Inr ?t, [], [])"
    by (simp add: parse_eval set_eval)
  have u: "cpu_set_add_all ?old ?t [] =
      (Inr (), \<lparr>set_c = Some [14,0,0,0,0,0,0,0], allocated = 8\<rparr>, [])"
    by (simp add: cpu_set_add_all_def cpu_set_add_all_loop_numeral set_eval)
  note T = parse_cpu_set_extend_cases [OF w, of _ "[]" False]
  have r1: "parse_cpu_set_extend ''x'' ?old False [] =
     (Inl EINVAL, ?old, [], [Diagnostic LOG_ERR (Some EINVAL) (Failed_to_parse ''x'')])"
    using T [of "''x''", THEN conjunct1, rule_format, OF px] .
  have r2: "parse_cpu_set_extend ''3'' cpu_set_empty False [] = (Inr (), ?t, [], [])"
    using parse_cpu_set_extend_cases [OF wf_cpuset_empty, of "''3''" "[]" False,
        THEN conjunct2, THEN conjunct1, rule_format, OF p3]
    by (simp add: cpu_set_empty_def)
  have r3: "parse_cpu_set_extend ''3'' ?old False [] =
     (Inr (), \<lparr>set_c = Some [14,0,0,0,0,0,0,0], allocated = 8\<rparr>, [], [])"
    using T [of "''3''", THEN conjunct2, THEN conjunct1, rule_format, OF p3] u by simp
  have r4: "\<forall>i. cpu_isset \<lparr>set_c = Some [14,0,0,0,0,0,0,0], allocated = 8\<rparr> i
              \<longleftrightarrow> i = 1 \<or> i = 2 \<or> i = 3"
    using T [of "''3''", THEN conjunct2, THEN conjunct2, THEN conjunct1, rule_format,
             OF conjI [OF members_1_2 g]] r3
    by simp
  have r5: "parse_cpu_set_extend [] ?old False [] = (Inr (), cpu_set_empty, [], [])"
    using T [of "[]", THEN conjunct2, THEN conjunct2, THEN conjunct2] .
  show ?thesis
    by (intro conjI w members_1_2 g r1 r2 r3 r4 r5)
qed

theorem parse_cpu_set_extend_cases_counterexample:
  "wf_cpuset \<lparr>set_c = Some [6,0,0,0,0,0,0,0], allocated = 8\<rparr> \<and>
   (\<forall>i. cpu_isset \<lparr>set_c = Some [6,0,0,0,0,0,0,0], allocated = 8\<rparr> i \<longleftrightarrow> i = 1 \<or> i = 2) \<and>
   parse_cpu_set_extend ''3'' \<lparr>set_c = Some [6,0,0,0,0,0,0,0], allocated = 8\<rparr> False [True, False] =
     (Inl ENOMEM, \<lparr>set_c = Some [6,0,0,0,0,0,0,0], allocated = 8\<rparr>, [],
      [Diagnostic LOG_ERR (Some ENOMEM) (Cannot_add 3)]) \<and>
   \<not> cpu_isset \<lparr>set_c = Some [6,0,0,0,0,0,0,0], allocated = 8\<rparr> 3"
proof -
  have "parse_cpu_set_extend ''3'' \<lparr>set_c = Some [6,0,0,0,0,0,0,0], allocated = 8\<rparr> False [True, False] =
     (Inl ENOMEM, \<lparr>set_c = Some [6,0,0,0,0,0,0,0], allocated = 8\<rparr>, [],
      [Diagnostic LOG_ERR (Some ENOMEM) (Cannot_add 3)])"
    by (simp add: parse_cpu_set_extend_def parse_eval set_eval)
  then show ?thesis
    using members_1_2 by (simp add: wf_cpuset_def)
qed

subsection \<open>Diagnostics\<close>

lemma parse_add_loop_diagnosed:
  "parse_add_loop c cpu_lower n warn h lg = (res, h', lg') \<Longrightarrow>
   diagnosed warn lg res lg' \<and> (\<forall>c'. res = Inr c' \<longrightarrow> lg' = lg)"
proof (induction n arbitrary: c h)
  case 0
  then show ?case by (auto simp: diagnosed_def)
next
  case (Suc cpu)
  show ?case
  proof (cases "Suc cpu > cpu_lower")
    case False
    then show ?thesis using Suc.prems by (auto simp: diagnosed_def)
  next
    case True
    obtain r c1 h1 where ad: "cpu_set_add c cpu h = (r, c1, h1)"
      by (cases "cpu_set_add c cpu h") auto
    show ?thesis
    proof (cases r)
      case (Inl e)
      then show ?thesis
        using Suc.prems True ad
        by (auto simp: diagnosed_def failure_diagnostic_def log_syntax_def)
    next
      case (Inr u)
      then show ?thesis using Suc.prems True ad Suc.IH by simp
    qed
  qed
qed

lemma parse_cpu_set_loop_diagnosed:
  "parse_cpu_set_loop p c warn h lg = (res, h', lg') \<Longrightarrow> diagnosed warn lg res lg'"
proof (induction "length p" arbitrary: p c h lg rule: less_induct)
  case less
  obtain x h1 where ex: "extract_first_word p h = (x, h1)"
    by (cases "extract_first_word p h") auto
  show ?case
  proof (cases x)
    case (Inl e)
    then show ?thesis
      using less.prems ex
      by (subst (asm) parse_cpu_set_loop.simps)
         (auto simp: diagnosed_def failure_diagnostic_def log_syntax_def log_oom_def
               split: if_splits)
  next
    case (Inr y)
    show ?thesis
    proof (cases y)
      case None
      then show ?thesis
        using less.prems ex Inr
        by (subst (asm) parse_cpu_set_loop.simps) (auto simp: diagnosed_def)
    next
      case (Some wp)
      obtain word p' where wp: "wp = (word, p')" by (cases wp) auto
      have shorter: "length p' < length p"
        using extract_first_word_length [of p h word p' h1] ex Inr Some wp by simp
      show ?thesis
      proof (cases "parse_range word")
        case (Inl e)
        then show ?thesis
          using less.prems ex Inr Some wp
          by (subst (asm) parse_cpu_set_loop.simps)
             (auto simp: diagnosed_def failure_diagnostic_def log_syntax_def)
      next
        case range: (Inr lu)
        obtain cpu_lower cpu_upper where lu: "lu = (cpu_lower, cpu_upper)" by (cases lu) auto
        let ?lg1 = "if cpu_lower > cpu_upper \<and> warn
                    then snd (log_syntax LOG_WARNING None (Range_invalid word cpu_lower cpu_upper) lg)
                    else lg"
        obtain r c1 h2 where re:
          "(if cpu_lower > cpu_upper then cpu_set_realloc c 1 h1 else (Inr (), c, h1)) = (r, c1, h2)"
          by (cases "if cpu_lower > cpu_upper then cpu_set_realloc c 1 h1 else (Inr (), c, h1)") auto
        obtain q h3 lg2 where pa:
          "parse_add_loop c1 cpu_lower (min cpu_upper (2 ^ 32 - 2) + 1) warn h2 ?lg1 = (q, h3, lg2)"
          by (cases "parse_add_loop c1 cpu_lower (min cpu_upper (2 ^ 32 - 2) + 1) warn h2 ?lg1") auto
        have unfolded: "(case r of Inl e \<Rightarrow> (Inl e, h2, ?lg1)
                  | Inr _ \<Rightarrow> (case q of Inl e \<Rightarrow> (Inl e, h3, lg2)
                                       | Inr c2 \<Rightarrow> parse_cpu_set_loop p' c2 warn h3 lg2))
                 = (res, h', lg')"
          using less.prems
          by (subst (asm) parse_cpu_set_loop.simps)
             (simp only: ex Inr Some wp range lu re pa prod.case sum.case option.case Let_def)
        have lg1: "\<not> warn \<Longrightarrow> ?lg1 = lg" by simp
        show ?thesis
        proof (cases r)
          case rl: (Inl e)
          then have inverted: "cpu_lower > cpu_upper" and nomem: "e = ENOMEM"
            using re by (auto split: if_splits dest: cpu_set_realloc_cases)
          have "res = Inl e" "lg' = ?lg1" using unfolded rl by simp_all
          then show ?thesis
            using inverted nomem
            by (auto simp: diagnosed_def failure_diagnostic_def log_syntax_def)
        next
          case rr: (Inr u)
          from parse_add_loop_diagnosed [OF pa]
          have d2: "diagnosed warn ?lg1 q lg2" and same: "\<And>c'. q = Inr c' \<Longrightarrow> lg2 = ?lg1"
            by auto
          show ?thesis
          proof (cases q)
            case ql: (Inl e)
            then have "res = Inl e" "lg' = lg2" using unfolded rr by simp_all
            then show ?thesis using d2 ql lg1 by (auto simp: diagnosed_def)
          next
            case qr: (Inr c2)
            then have rec: "parse_cpu_set_loop p' c2 warn h3 lg2 = (res, h', lg')"
              using unfolded rr by simp
            from less.hyps [OF shorter rec] same [OF qr] lg1
            show ?thesis by (auto simp: diagnosed_def)
          qed
        qed
      qed
    qed
  qed
qed

text \<open>
  What the parser emits, for every input: nothing in strict mode; in warn mode every
  error return comes after a diagnostic, and the last one emitted is an error-level
  diagnostic carrying the returned error, except where the allocation of the sentinel
  byte for an inverted range fails: there the last diagnostic is the warning that the
  range is ignored.
\<close>

lemma parse_cpu_set_full_emits:
  "parse_cpu_set_full rvalue warn h = (res, h', lg) \<Longrightarrow>
     (\<not> warn \<longrightarrow> lg = []) \<and>
     (warn \<longrightarrow> (\<forall>e. res = Inl e \<longrightarrow> lg \<noteq> [] \<and>
        ((\<exists>m. last lg = Diagnostic LOG_ERR (Some e) m) \<or>
         (e = ENOMEM \<and>
          (\<exists>w l u. l > u \<and> last lg = Diagnostic LOG_WARNING None (Range_invalid w l u))))))"
  unfolding parse_cpu_set_full_def
  by (drule parse_cpu_set_loop_diagnosed)
     (auto simp: diagnosed_def failure_diagnostic_def)

text \<open>
  C9. Lenient-mode diagnostics on failure, where the code departs from it: in warn
  mode, when \<^verbatim>\<open>realloc\<close> fails for the sentinel byte of the inverted range \<^verbatim>\<open>"7-2"\<close>,
  \<^verbatim>\<open>parse_cpu_set_full\<close> returns \<^verbatim>\<open>-ENOMEM\<close> and no diagnostic reports that failure:
  the only one emitted is the earlier warning that the range is ignored. The sibling
  paths report theirs: a failed allocation of the word goes through \<^verbatim>\<open>log_oom\<close>, a
  failed \<^verbatim>\<open>cpu_set_add\<close> and a malformed token through \<^verbatim>\<open>log_syntax\<close> at \<^verbatim>\<open>LOG_ERR\<close>.
  In strict mode the same failures are returned with no diagnostic.
\<close>

theorem parse_cpu_set_full_unreported_failure:
  "parse_cpu_set_full ''7-2'' True [True, False] =
     (Inl ENOMEM, [], [Diagnostic LOG_WARNING None (Range_invalid ''7-2'' 7 2)]) \<and>
   parse_cpu_set_full ''7-2'' False [True, False] = (Inl ENOMEM, [], []) \<and>
   parse_cpu_set_full ''7'' True [False] =
     (Inl ENOMEM, [], [Diagnostic LOG_ERR (Some ENOMEM) Out_of_memory]) \<and>
   parse_cpu_set_full ''7'' True [True, False] =
     (Inl ENOMEM, [], [Diagnostic LOG_ERR (Some ENOMEM) (Cannot_add 7)]) \<and>
   parse_cpu_set_full ''2,x'' True [] =
     (Inl EINVAL, [], [Diagnostic LOG_ERR (Some EINVAL) (Failed_to_parse ''x'')]) \<and>
   parse_cpu_set_full ''2,x'' False [] = (Inl EINVAL, [], [])"
  by (simp add: parse_eval set_eval)

end
